theory Spec2Isabelle
  imports
    Main
    "HOL-Library.Multiset"
    "HOL-Library.Char_ord"
    "HOL-Library.List_Lexorder"
    "HOL-Library.Product_Lexorder"
    "HOL-Library.Option_ord"
begin

section \<open>The AskDoc server: folders, files and their routes\<close>

text \<open>
  The program is \<^verbatim>\<open>src/server.js\<close>: an Express application over one SQLite
  connection (\<^verbatim>\<open>new sqlite3.Database('askdoc.db')\<close>) and the local file system.
  Each route is embedded as a function from the request and the state it reads
  (tables, file system, console) to the HTTP answer and the state it leaves.

  Conventions of the embedding.
  \<^item> A table is the list of its rows in rowid order. Integers of SQLite and of
    JavaScript are \<open>int\<close>; \<^verbatim>\<open>created_at\<close> (the text \<^verbatim>\<open>CURRENT_TIMESTAMP\<close>, whose text
    order is the order of time) is a \<open>nat\<close>. Strings are ASCII \<open>string\<close>s.
  \<^item> SQLite enforces foreign keys only on a connection that has issued
    \<^verbatim>\<open>PRAGMA foreign_keys = ON\<close> (they are off by default, for each connection), and
    the source never issues it: the \<^verbatim>\<open>REFERENCES ... ON DELETE CASCADE\<close> clauses of
    the two \<^verbatim>\<open>CREATE TABLE\<close> statements are parsed and never acted upon.
    A \<^verbatim>\<open>DELETE\<close> of the model removes the rows its \<^verbatim>\<open>WHERE\<close> selects and nothing
    else; an \<^verbatim>\<open>INSERT\<close> checks \<^verbatim>\<open>NOT NULL\<close> and \<^verbatim>\<open>CHECK\<close> only.
  \<^item> The \<^verbatim>\<open>err\<close> a callback of \<^verbatim>\<open>db.all\<close>, \<^verbatim>\<open>db.get\<close> or \<^verbatim>\<open>db.run\<close> may receive from
    the store (disk, lock, corruption) is an input: \<open>faults s\<close> is the message of
    the error statement \<open>s\<close> meets, or \<open>None\<close>. A statement that fails changes no row.
  \<^item> The \<^verbatim>\<open>:id\<close> segment of a path reaches SQLite as text and is compared with an
    \<^verbatim>\<open>INTEGER\<close> column under numeric affinity: the model takes the integer the
    text denotes. A text that denotes none matches no row, as an integer does that
    no row has.
  \<^item> An answer is \<open>Inl\<close> of the HTTP error status or \<open>Inr\<close> of the JSON body; the
    constant Korean message texts are left out. The console is modelled for the two
    deleting routes, whose lines tell what happened to the blobs; the lines of the
    other routes are left out.
  \<^item> A recursion of the source that need not end (\<^verbatim>\<open>buildTree\<close>, the
    \<^verbatim>\<open>WITH RECURSIVE\<close> queries) takes fuel: \<open>None\<close> is "no answer within the fuel".
\<close>

subsection \<open>Tables\<close>

record folder_row =
  fo_id :: int
  fo_name :: string
  fo_parent_id :: "int option"
  fo_tab_type :: string
  fo_created_at :: nat

record file_row =
  f_id :: int
  f_name :: string
  f_original_name :: string
  f_file_path :: string
  f_file_size :: int
  f_mime_type :: "string option"
  f_folder_id :: "int option"
  f_tab_type :: string
  f_created_at :: nat

text \<open>\<open>folders_seq\<close> is the row of \<^verbatim>\<open>sqlite_sequence\<close> that \<^verbatim>\<open>AUTOINCREMENT\<close> keeps
  for the folder table: the largest id ever given out.\<close>

record database =
  folders :: "folder_row list"
  files :: "file_row list"
  folders_seq :: int

datatype stmt =
  SelectFolders | InsertFolder | GetSubItems | DeleteFiles | DeleteSubfolders
  | DeleteFolder | SelectFile | DeleteFile | SearchFiles

type_synonym faults = "stmt \<Rightarrow> string option"

datatype http_error = Status400 | Status404 | Status500 string

subsection \<open>File system and console\<close>

text \<open>\<open>existing\<close> are the paths \<^verbatim>\<open>fs.existsSync\<close> answers true for; \<open>undeletable\<close>
  are the paths on which \<^verbatim>\<open>fs.unlinkSync\<close> throws (a directory, a missing
  permission).\<close>

record filesystem =
  existing :: "string set"
  undeletable :: "string set"

datatype item_type = TFolder | TFile

record sub_item =
  si_type :: item_type
  si_id :: int
  si_name :: string
  si_file_path :: "string option"

datatype log_event =
  LogDeleteFolderRequest int
  | LogItems "sub_item list"
  | LogUnlinked string
  | LogUnlinkError string
  | LogDbError stmt string
  | LogFolderDeleted int
  | LogDeleteFileRequest int
  | LogFileRow file_row
  | LogFileDeleted int

record world =
  db :: database
  fs :: filesystem
  console :: "log_event list"

subsection \<open>Route 1: the folder list and \<^verbatim>\<open>buildTree\<close>\<close>

text \<open>The query of the route selects four columns; \<^verbatim>\<open>buildTree\<close> works on these
  rows and adds \<^verbatim>\<open>children\<close> to each.\<close>

record folder_item =
  it_id :: int
  it_name :: string
  it_parent_id :: "int option"
  it_created_at :: nat

datatype node = Node (item: folder_item) (children: "node list")

text \<open>
  \<^verbatim>\<open>const buildTree = (items, parentId = null) =>
     items.filter(item => item.parent_id === parentId)
          .map(item => ({...item, children: buildTree(items, item.id)}))\<close>

  The fuel bounds the depth of the JavaScript call stack.\<close>

fun buildTree :: "nat \<Rightarrow> folder_item list \<Rightarrow> int option \<Rightarrow> node list option" where
  "buildTree 0 items parentId = None"
| "buildTree (Suc k) items parentId =
     those (map (\<lambda>item. map_option (Node item) (buildTree k items (Some (it_id item))))
                (filter (\<lambda>item. it_parent_id item = parentId) items))"

text \<open>\<^verbatim>\<open>SELECT id, name, parent_id, created_at FROM folders WHERE tab_type = ?
  ORDER BY parent_id ASC, name ASC\<close>: \<^verbatim>\<open>NULL\<close> sorts first, names compare
  bytewise (the \<^verbatim>\<open>BINARY\<close> collation).\<close>

definition to_item :: "folder_row \<Rightarrow> folder_item" where
  "to_item r = \<lparr>it_id = fo_id r, it_name = fo_name r, it_parent_id = fo_parent_id r,
                it_created_at = fo_created_at r\<rparr>"

definition select_folders :: "database \<Rightarrow> string \<Rightarrow> folder_item list" where
  "select_folders d tabType =
     map to_item (sort_key (\<lambda>r. (fo_parent_id r, fo_name r))
                           (filter (\<lambda>r. fo_tab_type r = tabType) (folders d)))"

definition listFolders ::
  "nat \<Rightarrow> faults \<Rightarrow> database \<Rightarrow> string \<Rightarrow> (http_error + node list) option" where
  "listFolders k flt d tabType =
     (case flt SelectFolders of
        Some e \<Rightarrow> Some (Inl (Status500 e))
      | None \<Rightarrow> map_option Inr (buildTree k (select_folders d tabType) None))"

text \<open>Reading a forest back as the list of its records, parents before children.\<close>

fun flatten_node :: "node \<Rightarrow> folder_item list" where
  "flatten_node (Node it ts) = it # concat (map flatten_node ts)"

definition flatten :: "node list \<Rightarrow> folder_item list" where
  "flatten ts = concat (map flatten_node ts)"

text \<open>The edges child id \<open>\<rightarrow>\<close> parent id a list of records declares.\<close>

definition item_edges :: "folder_item list \<Rightarrow> (int \<times> int) set" where
  "item_edges items = {(it_id r, p) | r p. r \<in> set items \<and> it_parent_id r = Some p}"

text \<open>A forest: every declared parent is the id of a record of the list, and
  following parents never comes back.\<close>

definition is_forest :: "folder_item list \<Rightarrow> bool" where
  "is_forest items \<longleftrightarrow>
     distinct (map it_id items) \<and>
     (\<forall>r \<in> set items. \<forall>p. it_parent_id r = Some p \<longrightarrow> p \<in> it_id ` set items) \<and>
     acyclic (item_edges items)"

text \<open>An orphan declares a parent that no record of the list has as its id.\<close>

definition orphan :: "folder_item list \<Rightarrow> folder_item \<Rightarrow> bool" where
  "orphan items r \<longleftrightarrow> (\<exists>p. it_parent_id r = Some p \<and> p \<notin> it_id ` set items)"

fun name_ordered :: "node \<Rightarrow> bool" where
  "name_ordered (Node it ts) \<longleftrightarrow>
     sorted (map (\<lambda>t. it_name (item t)) ts) \<and> (\<forall>t \<in> set ts. name_ordered t)"

definition forest_name_ordered :: "node list \<Rightarrow> bool" where
  "forest_name_ordered ts \<longleftrightarrow>
     sorted (map (\<lambda>t. it_name (item t)) ts) \<and> (\<forall>t \<in> set ts. name_ordered t)"

text \<open>The records \<^verbatim>\<open>buildTree\<close> reaches from the parent reference \<open>p\<close>: those that
  declare \<open>p\<close>, and the records reached from the id of one of those.\<close>

inductive reached :: "folder_item list \<Rightarrow> int option \<Rightarrow> folder_item \<Rightarrow> bool"
  for items :: "folder_item list" where
  child: "r \<in> set items \<Longrightarrow> it_parent_id r = p \<Longrightarrow> reached items p r"
| deeper: "c \<in> set items \<Longrightarrow> it_parent_id c = p \<Longrightarrow> reached items (Some (it_id c)) r
           \<Longrightarrow> reached items p r"

text \<open>The records whose chain of parents ends at a record without parent, and the
  edges that lead into them.\<close>

inductive rooted :: "folder_item list \<Rightarrow> folder_item \<Rightarrow> bool"
  for items :: "folder_item list" where
  root: "r \<in> set items \<Longrightarrow> it_parent_id r = None \<Longrightarrow> rooted items r"
| below: "rooted items c \<Longrightarrow> r \<in> set items \<Longrightarrow> it_parent_id r = Some (it_id c)
          \<Longrightarrow> rooted items r"

definition rooted_edges :: "folder_item list \<Rightarrow> (int \<times> int) set" where
  "rooted_edges items =
     {(it_id c, it_id r) | c r. c \<in> set items \<and> rooted items r \<and> it_parent_id c = Some (it_id r)}"

subsection \<open>Route 6: deleting a folder\<close>

text \<open>
  The three statements of the route each carry the common table expression

  \<^verbatim>\<open>WITH RECURSIVE folder_tree AS (
     SELECT id FROM folders WHERE <base>
     UNION ALL
     SELECT f.id FROM folders f INNER JOIN folder_tree ft ON f.parent_id = ft.id)\<close>

  SQLite evaluates it with a queue: the rows of the base select are queued; then,
  as long as the queue is not empty, its first row is moved to the result and the
  rows the recursive select yields for that one row are appended to the queue.
  \<^verbatim>\<open>UNION ALL\<close> drops no duplicate, so on a cycle of parents the query never ends:
  the fuel counts the rows taken from the queue. The queue holds whole folder rows;
  the statements project \<^verbatim>\<open>id\<close> (and \<^verbatim>\<open>name\<close>) out of them.\<close>

fun folder_tree :: "nat \<Rightarrow> folder_row list \<Rightarrow> folder_row list \<Rightarrow> folder_row list option" where
  "folder_tree k tbl [] = Some []"
| "folder_tree 0 tbl (x # queue) = None"
| "folder_tree (Suc k) tbl (x # queue) =
     map_option ((#) x)
       (folder_tree k tbl (queue @ filter (\<lambda>f. fo_parent_id f = Some (fo_id x)) tbl))"

text \<open>\<^verbatim>\<open>x IN (SELECT id FROM folder_tree)\<close>: a \<^verbatim>\<open>NULL\<close> on the left selects nothing.\<close>

fun sql_in :: "int option \<Rightarrow> int list \<Rightarrow> bool" where
  "sql_in None ids = False"
| "sql_in (Some v) ids = (v \<in> set ids)"

text \<open>\<^verbatim>\<open>getSubItemsQuery\<close>, base \<^verbatim>\<open>WHERE id = ?\<close>: the folders of the tree, then the
  files whose \<^verbatim>\<open>folder_id\<close> is in the tree.\<close>

definition sub_items :: "database \<Rightarrow> folder_row list \<Rightarrow> sub_item list" where
  "sub_items d ft =
     map (\<lambda>f. \<lparr>si_type = TFolder, si_id = fo_id f, si_name = fo_name f,
                si_file_path = None\<rparr>) ft
     @ map (\<lambda>f. \<lparr>si_type = TFile, si_id = f_id f, si_name = f_original_name f,
                  si_file_path = Some (f_file_path f)\<rparr>)
           (filter (\<lambda>f. sql_in (f_folder_id f) (map fo_id ft)) (files d))"

definition getSubItems :: "nat \<Rightarrow> database \<Rightarrow> int \<Rightarrow> sub_item list option" where
  "getSubItems k d i =
     map_option (sub_items d)
       (folder_tree k (folders d) (filter (\<lambda>f. fo_id f = i) (folders d)))"

text \<open>\<^verbatim>\<open>deleteFilesQuery\<close>, base \<^verbatim>\<open>WHERE id = ?\<close>.\<close>

definition deleteFilesQuery :: "nat \<Rightarrow> database \<Rightarrow> int \<Rightarrow> database option" where
  "deleteFilesQuery k d i =
     map_option
       (\<lambda>ft. d\<lparr>files := filter (\<lambda>f. \<not> sql_in (f_folder_id f) (map fo_id ft)) (files d)\<rparr>)
       (folder_tree k (folders d) (filter (\<lambda>f. fo_id f = i) (folders d)))"

text \<open>\<^verbatim>\<open>deleteSubfoldersQuery\<close>, base \<^verbatim>\<open>WHERE id = ? AND id != ?\<close>; the route binds
  \<^verbatim>\<open>[id, id]\<close>.\<close>

definition deleteSubfoldersQuery :: "nat \<Rightarrow> database \<Rightarrow> int \<Rightarrow> int \<Rightarrow> database option" where
  "deleteSubfoldersQuery k d i j =
     map_option
       (\<lambda>ft. d\<lparr>folders := filter (\<lambda>f. \<not> sql_in (Some (fo_id f)) (map fo_id ft)) (folders d)\<rparr>)
       (folder_tree k (folders d) (filter (\<lambda>f. fo_id f = i \<and> fo_id f \<noteq> j) (folders d)))"

text \<open>\<^verbatim>\<open>DELETE FROM folders WHERE id = ?\<close>, with \<^verbatim>\<open>this.changes\<close>.\<close>

definition deleteFolderQuery :: "database \<Rightarrow> int \<Rightarrow> database \<times> nat" where
  "deleteFolderQuery d i =
     (d\<lparr>folders := filter (\<lambda>f. fo_id f \<noteq> i) (folders d)\<rparr>,
      length (filter (\<lambda>f. fo_id f = i) (folders d)))"

text \<open>\<^verbatim>\<open>fs.unlinkSync\<close>: \<open>None\<close> when it throws.\<close>

definition unlinkSync :: "filesystem \<Rightarrow> string \<Rightarrow> filesystem option" where
  "unlinkSync f p =
     (if p \<in> existing f \<and> p \<notin> undeletable f then Some (f\<lparr>existing := existing f - {p}\<rparr>)
      else None)"

text \<open>The body of \<^verbatim>\<open>files.forEach\<close>:
  \<^verbatim>\<open>if (fs.existsSync(p)) { try { fs.unlinkSync(p); console.log(..) } catch (err) { console.error(..) } }\<close>\<close>

fun remove_blob :: "filesystem \<times> log_event list \<Rightarrow> string \<Rightarrow> filesystem \<times> log_event list" where
  "remove_blob (f, out) p =
     (if p \<in> existing f then
        (case unlinkSync f p of
           Some f' \<Rightarrow> (f', out @ [LogUnlinked p])
         | None \<Rightarrow> (f, out @ [LogUnlinkError p]))
      else (f, out))"

definition remove_blobs ::
  "filesystem \<times> log_event list \<Rightarrow> string list \<Rightarrow> filesystem \<times> log_event list" where
  "remove_blobs st ps = foldl remove_blob st ps"

text \<open>\<^verbatim>\<open>items.filter(item => item.type === 'file' && item.file_path)\<close>: an empty path is
  falsy.\<close>

definition blob_paths :: "sub_item list \<Rightarrow> string list" where
  "blob_paths items =
     concat (map (\<lambda>it. case si_file_path it of
                          None \<Rightarrow> []
                        | Some p \<Rightarrow> if si_type it = TFile \<and> p \<noteq> [] then [p] else []) items)"

record delete_folder_response =
  deletedRows :: nat
  folderId :: int

type_synonym 'a answer = "(http_error + 'a) \<times> world"

definition say :: "log_event \<Rightarrow> world \<Rightarrow> world" where
  "say ev w = w\<lparr>console := console w @ [ev]\<rparr>"

definition fail500 :: "stmt \<Rightarrow> string \<Rightarrow> world \<Rightarrow> 'a answer" where
  "fail500 s e w = (Inl (Status500 e), say (LogDbError s e) w)"

text \<open>The callbacks of the route, innermost first.\<close>

definition deleteFolder_target :: "faults \<Rightarrow> world \<Rightarrow> int \<Rightarrow> delete_folder_response answer" where
  "deleteFolder_target flt w i =
     (case flt DeleteFolder of
        Some e \<Rightarrow> fail500 DeleteFolder e w
      | None \<Rightarrow>
          (let (d', changes) = deleteFolderQuery (db w) i
           in (Inr \<lparr>deletedRows = changes, folderId = i\<rparr>,
               say (LogFolderDeleted i) (w\<lparr>db := d'\<rparr>))))"

definition deleteFolder_subfolders ::
  "nat \<Rightarrow> faults \<Rightarrow> world \<Rightarrow> int \<Rightarrow> delete_folder_response answer option" where
  "deleteFolder_subfolders k flt w i =
     (case flt DeleteSubfolders of
        Some e \<Rightarrow> Some (fail500 DeleteSubfolders e w)
      | None \<Rightarrow>
          (case deleteSubfoldersQuery k (db w) i i of
             None \<Rightarrow> None
           | Some d' \<Rightarrow> Some (deleteFolder_target flt (w\<lparr>db := d'\<rparr>) i)))"

definition deleteFolder_files ::
  "nat \<Rightarrow> faults \<Rightarrow> world \<Rightarrow> int \<Rightarrow> delete_folder_response answer option" where
  "deleteFolder_files k flt w i =
     (case flt DeleteFiles of
        Some e \<Rightarrow> Some (fail500 DeleteFiles e w)
      | None \<Rightarrow>
          (case deleteFilesQuery k (db w) i of
             None \<Rightarrow> None
           | Some d' \<Rightarrow> deleteFolder_subfolders k flt (w\<lparr>db := d'\<rparr>) i))"

definition deleteFolder ::
  "nat \<Rightarrow> faults \<Rightarrow> world \<Rightarrow> int \<Rightarrow> delete_folder_response answer option" where
  "deleteFolder k flt w i =
     (let w0 = say (LogDeleteFolderRequest i) w in
      case flt GetSubItems of
        Some e \<Rightarrow> Some (fail500 GetSubItems e w0)
      | None \<Rightarrow>
          (case getSubItems k (db w0) i of
             None \<Rightarrow> None
           | Some items \<Rightarrow>
               (let (f', out) = remove_blobs (fs w0, console w0 @ [LogItems items])
                                             (blob_paths items)
                in deleteFolder_files k flt (w0\<lparr>fs := f', console := out\<rparr>) i)))"

text \<open>The edges child id \<open>\<rightarrow>\<close> parent id of the folder table, and the ids of the
  subtree of \<open>i\<close>: \<open>i\<close>, when a row has it, and the ids that reach it.\<close>

definition folder_edges :: "folder_row list \<Rightarrow> (int \<times> int) set" where
  "folder_edges tbl = {(fo_id r, p) | r p. r \<in> set tbl \<and> fo_parent_id r = Some p}"

definition subtree :: "folder_row list \<Rightarrow> int \<Rightarrow> int set" where
  "subtree tbl i = (if i \<in> fo_id ` set tbl then {x. (x, i) \<in> (folder_edges tbl)\<^sup>*} else {})"

definition owned :: "folder_row list \<Rightarrow> int \<Rightarrow> file_row \<Rightarrow> bool" where
  "owned tbl i f \<longleftrightarrow> (\<exists>x \<in> subtree tbl i. f_folder_id f = Some x)"

subsection \<open>Route 7: deleting a file\<close>

record delete_file_response =
  df_deletedRows :: nat
  df_fileId :: int
  df_fileName :: string

definition deleteFile :: "faults \<Rightarrow> world \<Rightarrow> int \<Rightarrow> delete_file_response answer" where
  "deleteFile flt w i =
     (let w0 = say (LogDeleteFileRequest i) w in
      case flt SelectFile of
        Some e \<Rightarrow> fail500 SelectFile e w0
      | None \<Rightarrow>
          (case find (\<lambda>f. f_id f = i) (files (db w0)) of
             None \<Rightarrow> (Inl Status404, w0)
           | Some row \<Rightarrow>
               (let w1 = say (LogFileRow row) w0;
                    (f', out) = (if f_file_path row \<noteq> [] then
                                   remove_blob (fs w1, console w1) (f_file_path row)
                                 else (fs w1, console w1));
                    w2 = w1\<lparr>fs := f', console := out\<rparr>
                in case flt DeleteFile of
                     Some e \<Rightarrow> fail500 DeleteFile e w2
                   | None \<Rightarrow>
                       (Inr \<lparr>df_deletedRows = length (filter (\<lambda>f. f_id f = i) (files (db w2))),
                             df_fileId = i, df_fileName = f_original_name row\<rparr>,
                        say (LogFileDeleted i)
                          (w2\<lparr>db := (db w2)\<lparr>files := filter (\<lambda>f. f_id f \<noteq> i)
                                                              (files (db w2))\<rparr>\<rparr>)))))"

subsection \<open>Route 3: creating a folder\<close>

text \<open>A field of the JSON body. Numbers are the integral ones.\<close>

datatype jsval = JUndefined | JNull | JBool bool | JNum int | JStr string

fun truthy :: "jsval \<Rightarrow> bool" where
  "truthy JUndefined = False"
| "truthy JNull = False"
| "truthy (JBool b) = b"
| "truthy (JNum n) = (n \<noteq> 0)"
| "truthy (JStr s) = (s \<noteq> [])"

text \<open>\<^verbatim>\<open>parseInt\<close> with one argument: white space is skipped, a sign is read, a
  prefix \<^verbatim>\<open>0x\<close> selects radix 16, and the longest run of digits is the value; no digit
  gives \<^verbatim>\<open>NaN\<close>, here \<open>None\<close>. A digit is one of 0 to 9 (codes 48 to 57), a to z
  (97 to 122) or A to Z (65 to 90), with a value below the radix.\<close>

definition is_space :: "char \<Rightarrow> bool" where
  "is_space c \<longleftrightarrow> c \<in> set [CHR 0x09, CHR 0x0A, CHR 0x0B, CHR 0x0C, CHR 0x0D, CHR '' '']"

definition digit_of :: "char \<Rightarrow> nat option" where
  "digit_of c =
     (let n = (of_char c :: nat)
      in if 48 \<le> n \<and> n \<le> 57 then Some (n - 48)
         else if 97 \<le> n \<and> n \<le> 122 then Some (n - 87)
         else if 65 \<le> n \<and> n \<le> 90 then Some (n - 55)
         else None)"

definition is_digit :: "nat \<Rightarrow> char \<Rightarrow> bool" where
  "is_digit radix c = (case digit_of c of None \<Rightarrow> False | Some v \<Rightarrow> v < radix)"

definition parse_digits :: "nat \<Rightarrow> string \<Rightarrow> int option" where
  "parse_digits radix s =
     (let ds = takeWhile (is_digit radix) s
      in if ds = [] then None
         else Some (foldl (\<lambda>acc c. acc * int radix + int (case digit_of c of None \<Rightarrow> 0 | Some v \<Rightarrow> v))
                          0 ds))"

definition parseInt_str :: "string \<Rightarrow> int option" where
  "parseInt_str s =
     (let s1 = dropWhile is_space s;
          (neg, s2) = (case s1 of
                         [] \<Rightarrow> (False, s1)
                       | c # r \<Rightarrow> if c = CHR ''-'' then (True, r)
                                  else if c = CHR ''+'' then (False, r) else (False, s1));
          (radix, s3) = (case s2 of
                           a # b # r \<Rightarrow> if a = CHR ''0'' \<and> (b = CHR ''x'' \<or> b = CHR ''X'')
                                         then (16, r) else (10, s2)
                         | _ \<Rightarrow> (10, s2))
      in map_option (\<lambda>v. if neg then - v else v) (parse_digits radix s3))"

text \<open>\<^verbatim>\<open>parseInt(v)\<close> first turns \<^verbatim>\<open>v\<close> into a string: a number reads back as
  itself, \<^verbatim>\<open>"true"\<close>, \<^verbatim>\<open>"null"\<close> and \<^verbatim>\<open>"undefined"\<close> hold no digit.\<close>

fun parseInt :: "jsval \<Rightarrow> int option" where
  "parseInt (JStr s) = parseInt_str s"
| "parseInt (JNum n) = Some n"
| "parseInt v = None"

text \<open>
  \<^verbatim>\<open>let processedParentId = null;
  if (parentId && parentId !== 'null' && parentId !== '') {
      processedParentId = parseInt(parentId);
      if (isNaN(processedParentId)) { res.status(400)...; return; } }\<close>\<close>

definition processParentId :: "jsval \<Rightarrow> http_error + int option" where
  "processParentId parentId =
     (if truthy parentId \<and> parentId \<noteq> JStr ''null'' \<and> parentId \<noteq> JStr [] then
        (case parseInt parentId of None \<Rightarrow> Inl Status400 | Some n \<Rightarrow> Inr (Some n))
      else Inr None)"

text \<open>\<^verbatim>\<open>INSERT INTO folders (name, parent_id, tab_type) VALUES (?, ?, ?)\<close>: the
  \<^verbatim>\<open>CHECK\<close> on \<^verbatim>\<open>tab_type\<close> is enforced, \<^verbatim>\<open>parent_id\<close> is stored as given;
  \<^verbatim>\<open>AUTOINCREMENT\<close> gives the id after the largest ever used; \<open>now\<close> is the clock
  behind \<^verbatim>\<open>CURRENT_TIMESTAMP\<close>. The answer holds the table and \<^verbatim>\<open>this.lastID\<close>.\<close>

definition insertFolder ::
  "faults \<Rightarrow> nat \<Rightarrow> database \<Rightarrow> string \<Rightarrow> int option \<Rightarrow> string \<Rightarrow> string + database \<times> int" where
  "insertFolder flt now d name parent tabType =
     (case flt InsertFolder of
        Some e \<Rightarrow> Inl e
      | None \<Rightarrow>
          if tabType \<noteq> ''my'' \<and> tabType \<noteq> ''public'' then Inl ''CHECK constraint failed''
          else
            (let lastID = fold max (map fo_id (folders d)) (folders_seq d) + 1
             in Inr (d\<lparr>folders := folders d @
                          [\<lparr>fo_id = lastID, fo_name = name, fo_parent_id = parent,
                            fo_tab_type = tabType, fo_created_at = now\<rparr>],
                        folders_seq := lastID\<rparr>, lastID)))"

record create_folder_response =
  cf_id :: int
  cf_name :: string
  cf_parent_id :: "int option"
  cf_tab_type :: string

text \<open>\<open>name\<close> and \<open>tabType\<close> are strings of the body, \<open>None\<close> when the body lacks
  them; \<open>parentId\<close> is any JSON value.\<close>

definition createFolder ::
  "faults \<Rightarrow> nat \<Rightarrow> database \<Rightarrow> string option \<Rightarrow> jsval \<Rightarrow> string option
     \<Rightarrow> (http_error + create_folder_response) \<times> database" where
  "createFolder flt now d name parentId tabType =
     (case (name, tabType) of
        (Some n, Some t) \<Rightarrow>
          if n = [] \<or> t = [] then (Inl Status400, d)
          else
            (case processParentId parentId of
               Inl e \<Rightarrow> (Inl e, d)
             | Inr processedParentId \<Rightarrow>
                 (case insertFolder flt now d n processedParentId t of
                    Inl e \<Rightarrow> (Inl (Status500 e), d)
                  | Inr (d', lastID) \<Rightarrow>
                      (Inr \<lparr>cf_id = lastID, cf_name = n, cf_parent_id = processedParentId,
                            cf_tab_type = t\<rparr>, d')))
      | _ \<Rightarrow> (Inl Status400, d))"

subsection \<open>Route 8: searching files\<close>

text \<open>\<^verbatim>\<open>LIKE\<close> of SQLite without \<^verbatim>\<open>ESCAPE\<close>: \<^verbatim>\<open>%\<close> in the pattern stands for any run
  of characters, \<^verbatim>\<open>_\<close> for any one character, and any other character for itself,
  the letters A to Z without regard to case.\<close>

definition sql_lower :: "char \<Rightarrow> char" where
  "sql_lower c =
     (case map_of (zip ''ABCDEFGHIJKLMNOPQRSTUVWXYZ'' ''abcdefghijklmnopqrstuvwxyz'') c of
        None \<Rightarrow> c
      | Some l \<Rightarrow> l)"




text \<open>\<open>t\<close> occurs in \<open>s\<close>, the letters A to Z compared without regard to case.\<close>

fun starts_ci :: "string \<Rightarrow> string \<Rightarrow> bool" where
  "starts_ci s [] = True"
| "starts_ci [] (c # t) = False"
| "starts_ci (a # s) (c # t) = (sql_lower a = sql_lower c \<and> starts_ci s t)"

fun contains_ci :: "string \<Rightarrow> string \<Rightarrow> bool" where
  "contains_ci [] t = (t = [])"
| "contains_ci (a # s) t = (starts_ci (a # s) t \<or> contains_ci s t)"




subsection \<open>Concrete states\<close>

definition no_faults :: faults where
  "no_faults = (\<lambda>s. None)"

text \<open>The folders of the example of the specification, as the folder list route
  reads them.\<close>

definition ex_items :: "folder_item list" where
  "ex_items =
     [\<lparr>it_id = 1, it_name = ''root'', it_parent_id = None, it_created_at = 0\<rparr>,
      \<lparr>it_id = 2, it_name = ''child'', it_parent_id = Some 1, it_created_at = 1\<rparr>,
      \<lparr>it_id = 3, it_name = ''grandchild'', it_parent_id = Some 2, it_created_at = 2\<rparr>]"

text \<open>A folder table with two namespaces, unsorted names and a folder whose parent
  is missing.\<close>

definition ex_folders :: "folder_row list" where
  "ex_folders =
     [\<lparr>fo_id = 1, fo_name = ''b'', fo_parent_id = None, fo_tab_type = ''my'', fo_created_at = 0\<rparr>,
      \<lparr>fo_id = 2, fo_name = ''a'', fo_parent_id = None, fo_tab_type = ''my'', fo_created_at = 1\<rparr>,
      \<lparr>fo_id = 3, fo_name = ''z'', fo_parent_id = Some 1, fo_tab_type = ''my'', fo_created_at = 2\<rparr>,
      \<lparr>fo_id = 4, fo_name = ''y'', fo_parent_id = Some 1, fo_tab_type = ''my'', fo_created_at = 3\<rparr>,
      \<lparr>fo_id = 5, fo_name = ''lost'', fo_parent_id = Some 99, fo_tab_type = ''my'', fo_created_at = 4\<rparr>,
      \<lparr>fo_id = 6, fo_name = ''team'', fo_parent_id = None, fo_tab_type = ''public'', fo_created_at = 5\<rparr>]"

definition ex_db :: database where
  "ex_db = \<lparr>folders = ex_folders, files = [], folders_seq = 6\<rparr>"

text \<open>The example of the specification: folders 1 (root), 2 (child of 1) and 3
  (child of 2); file 10 in folder 3, file 11 in folder 1, file 12 at the root of
  the namespace. The blob of file 10 is on disk, the blob of file 11 is not.\<close>

definition folder1 :: folder_row where
  "folder1 = \<lparr>fo_id = 1, fo_name = ''root'', fo_parent_id = None, fo_tab_type = ''my'',
              fo_created_at = 0\<rparr>"

definition folder2 :: folder_row where
  "folder2 = \<lparr>fo_id = 2, fo_name = ''child'', fo_parent_id = Some 1, fo_tab_type = ''my'',
              fo_created_at = 1\<rparr>"

definition folder3 :: folder_row where
  "folder3 = \<lparr>fo_id = 3, fo_name = ''grandchild'', fo_parent_id = Some 2, fo_tab_type = ''my'',
              fo_created_at = 2\<rparr>"

definition file_a :: file_row where
  "file_a = \<lparr>f_id = 10, f_name = ''1-a.pdf'', f_original_name = ''a.pdf'',
             f_file_path = ''uploads/1-a.pdf'', f_file_size = 100,
             f_mime_type = Some ''application/pdf'', f_folder_id = Some 3,
             f_tab_type = ''my'', f_created_at = 3\<rparr>"

definition file_b :: file_row where
  "file_b = \<lparr>f_id = 11, f_name = ''2-b.pdf'', f_original_name = ''b.pdf'',
             f_file_path = ''uploads/2-b.pdf'', f_file_size = 200,
             f_mime_type = Some ''application/pdf'', f_folder_id = Some 1,
             f_tab_type = ''my'', f_created_at = 4\<rparr>"

definition file_c :: file_row where
  "file_c = \<lparr>f_id = 12, f_name = ''c.pdf'', f_original_name = ''c.pdf'',
             f_file_path = [], f_file_size = 300,
             f_mime_type = Some ''application/pdf'', f_folder_id = None,
             f_tab_type = ''my'', f_created_at = 5\<rparr>"

definition spec_db :: database where
  "spec_db = \<lparr>folders = [folder1, folder2, folder3], files = [file_a, file_b, file_c],
              folders_seq = 3\<rparr>"

definition spec_world :: world where
  "spec_world = \<lparr>db = spec_db,
                 fs = \<lparr>existing = {''uploads/1-a.pdf''}, undeletable = {}\<rparr>,
                 console = []\<rparr>"

definition fault_at :: "stmt \<Rightarrow> string \<Rightarrow> faults" where
  "fault_at s e = (\<lambda>s'. if s' = s then Some e else None)"

text \<open>What \<^verbatim>\<open>getSubItemsQuery\<close> yields for folder 1 there, and the worlds the route
  leaves: after a run without store error, and after a run in which the statement
  that deletes the subfolders fails.\<close>

definition spec_items :: "sub_item list" where
  "spec_items =
     [\<lparr>si_type = TFolder, si_id = 1, si_name = ''root'', si_file_path = None\<rparr>,
      \<lparr>si_type = TFolder, si_id = 2, si_name = ''child'', si_file_path = None\<rparr>,
      \<lparr>si_type = TFolder, si_id = 3, si_name = ''grandchild'', si_file_path = None\<rparr>,
      \<lparr>si_type = TFile, si_id = 10, si_name = ''a.pdf'',
        si_file_path = Some ''uploads/1-a.pdf''\<rparr>,
      \<lparr>si_type = TFile, si_id = 11, si_name = ''b.pdf'',
        si_file_path = Some ''uploads/2-b.pdf''\<rparr>]"

definition spec_world_after :: world where
  "spec_world_after =
     \<lparr>db = \<lparr>folders = [folder2, folder3], files = [file_c], folders_seq = 3\<rparr>,
      fs = \<lparr>existing = {}, undeletable = {}\<rparr>,
      console = [LogDeleteFolderRequest 1, LogItems spec_items,
                 LogUnlinked ''uploads/1-a.pdf'', LogFolderDeleted 1]\<rparr>"

definition spec_world_failed :: world where
  "spec_world_failed =
     \<lparr>db = \<lparr>folders = [folder1, folder2, folder3], files = [file_c], folders_seq = 3\<rparr>,
      fs = \<lparr>existing = {}, undeletable = {}\<rparr>,
      console = [LogDeleteFolderRequest 1, LogItems spec_items,
                 LogUnlinked ''uploads/1-a.pdf'',
                 LogDbError DeleteSubfolders ''SQLITE_IOERR'']\<rparr>"

text \<open>One folder with one file whose blob is not on disk, and a second file whose
  blob cannot be removed.\<close>

definition lone_folder :: folder_row where
  "lone_folder = \<lparr>fo_id = 7, fo_name = ''scans'', fo_parent_id = None, fo_tab_type = ''my'',
                  fo_created_at = 0\<rparr>"

definition lone_file :: file_row where
  "lone_file = \<lparr>f_id = 70, f_name = ''3-gone.pdf'', f_original_name = ''gone.pdf'',
                f_file_path = ''uploads/3-gone.pdf'', f_file_size = 1,
                f_mime_type = None, f_folder_id = Some 7,
                f_tab_type = ''my'', f_created_at = 1\<rparr>"

definition stuck_file :: file_row where
  "stuck_file = \<lparr>f_id = 71, f_name = ''4-stuck.pdf'', f_original_name = ''stuck.pdf'',
                 f_file_path = ''uploads/4-stuck.pdf'', f_file_size = 1,
                 f_mime_type = None, f_folder_id = Some 7,
                 f_tab_type = ''my'', f_created_at = 2\<rparr>"

definition lone_world :: world where
  "lone_world =
     \<lparr>db = \<lparr>folders = [lone_folder], files = [lone_file], folders_seq = 7\<rparr>,
      fs = \<lparr>existing = {}, undeletable = {}\<rparr>,
      console = []\<rparr>"

definition lone_world_after :: world where
  "lone_world_after =
     \<lparr>db = \<lparr>folders = [], files = [], folders_seq = 7\<rparr>,
      fs = \<lparr>existing = {}, undeletable = {}\<rparr>,
      console = [LogDeleteFolderRequest 7,
                 LogItems [\<lparr>si_type = TFolder, si_id = 7, si_name = ''scans'',
                             si_file_path = None\<rparr>,
                           \<lparr>si_type = TFile, si_id = 70, si_name = ''gone.pdf'',
                             si_file_path = Some ''uploads/3-gone.pdf''\<rparr>],
                 LogFolderDeleted 7]\<rparr>"

definition stuck_world :: world where
  "stuck_world =
     \<lparr>db = \<lparr>folders = [lone_folder], files = [lone_file, stuck_file], folders_seq = 7\<rparr>,
      fs = \<lparr>existing = {''uploads/4-stuck.pdf''}, undeletable = {''uploads/4-stuck.pdf''}\<rparr>,
      console = []\<rparr>"

section \<open>The tree builder\<close>

subsection \<open>More fuel changes no answer\<close>

lemma those_map_Some:
  "those (map f xs) = Some ys \<longleftrightarrow> (\<forall>x \<in> set xs. f x \<noteq> None) \<and> ys = map (\<lambda>x. the (f x)) xs"
  by (induction xs arbitrary: ys) (auto split: option.splits)

lemma those_map_None:
  "those (map f xs) = None \<longleftrightarrow> (\<exists>x \<in> set xs. f x = None)"
  by (induction xs) (auto split: option.splits)

lemma buildTree_Suc:
  "buildTree k items p = Some ts \<Longrightarrow> buildTree (Suc k) items p = Some ts"
proof (induction k arbitrary: p ts)
  case 0
  then show ?case by simp
next
  case (Suc k)
  from Suc.prems have a: "\<forall>x \<in> set (filter (\<lambda>item. it_parent_id item = p) items).
      buildTree k items (Some (it_id x)) \<noteq> None"
    and b: "ts = map (\<lambda>x. the (map_option (Node x) (buildTree k items (Some (it_id x)))))
                  (filter (\<lambda>item. it_parent_id item = p) items)"
    by (auto simp: those_map_Some)
  have c: "buildTree (Suc k) items (Some (it_id x)) = buildTree k items (Some (it_id x))"
    if "x \<in> set (filter (\<lambda>item. it_parent_id item = p) items)" for x
  proof -
    from a that obtain t where "buildTree k items (Some (it_id x)) = Some t" by auto
    with Suc.IH show ?thesis by simp
  qed
  show ?case
    unfolding buildTree.simps(2)[of "Suc k"] those_map_Some
    using a b c by auto
qed

lemma buildTree_mono:
  "buildTree k items p = Some ts \<Longrightarrow> k \<le> m \<Longrightarrow> buildTree m items p = Some ts"
  by (induction m) (auto simp: le_Suc_eq buildTree_Suc simp del: buildTree.simps)

lemma buildTree_Suc_iff:
  "buildTree (Suc k) items p = Some ts \<longleftrightarrow>
     (\<forall>c \<in> set items. it_parent_id c = p \<longrightarrow> buildTree k items (Some (it_id c)) \<noteq> None) \<and>
     ts = map (\<lambda>c. Node c (the (buildTree k items (Some (it_id c)))))
              (filter (\<lambda>item. it_parent_id item = p) items)"
proof -
  have "map (\<lambda>x. the (map_option (Node x) (buildTree k items (Some (it_id x)))))
            (filter (\<lambda>item. it_parent_id item = p) items) =
        map (\<lambda>c. Node c (the (buildTree k items (Some (it_id c)))))
            (filter (\<lambda>item. it_parent_id item = p) items)"
    if "\<forall>c \<in> set items. it_parent_id c = p \<longrightarrow> buildTree k items (Some (it_id c)) \<noteq> None"
    using that by (intro map_cong) auto
  then show ?thesis
    by (auto simp: those_map_Some)
qed

subsection \<open>What the returned forest holds\<close>

lemma set_flatten_node:
  "set (flatten_node t) = insert (item t) (set (flatten (children t)))"
  by (cases t) (simp add: flatten_def)

lemma set_flatten:
  "set (flatten ts) = (\<Union>t \<in> set ts. insert (item t) (set (flatten (children t))))"
proof -
  have "set (flatten ts) = (\<Union>t \<in> set ts. set (flatten_node t))"
    by (simp add: flatten_def)
  then show ?thesis by (simp only: set_flatten_node)
qed

lemma in_flattenI:
  "Node c sub \<in> set ts \<Longrightarrow> r = c \<or> r \<in> set (flatten sub) \<Longrightarrow> r \<in> set (flatten ts)"
  unfolding set_flatten[of ts] by force

lemma flatten_buildTree_sub:
  "buildTree k items p = Some ts \<Longrightarrow> set (flatten ts) \<subseteq> Collect (reached items p)"
proof (induction k arbitrary: p ts)
  case 0
  then show ?case by simp
next
  case (Suc k)
  show ?case
  proof
    fix r assume "r \<in> set (flatten ts)"
    then obtain t where t: "t \<in> set ts" and r: "r = item t \<or> r \<in> set (flatten (children t))"
      unfolding set_flatten[of ts] by blast
    from Suc.prems t obtain c where c: "c \<in> set items" "it_parent_id c = p"
      and nn: "buildTree k items (Some (it_id c)) \<noteq> None"
      and tdef: "t = Node c (the (buildTree k items (Some (it_id c))))"
      by (auto simp: buildTree_Suc_iff simp del: buildTree.simps)
    from nn obtain sub where sub: "buildTree k items (Some (it_id c)) = Some sub"
      by blast
    from r tdef sub have "r = c \<or> r \<in> set (flatten sub)" by simp
    then have "reached items p r"
    proof
      assume "r = c" with c show ?thesis by (simp add: reached.child)
    next
      assume "r \<in> set (flatten sub)"
      with Suc.IH[OF sub] have "reached items (Some (it_id c)) r" by blast
      then show ?thesis by (rule reached.deeper[OF c])
    qed
    then show "r \<in> Collect (reached items p)" by simp
  qed
qed

lemma flatten_buildTree_sup:
  "reached items p r \<Longrightarrow> buildTree k items p = Some ts \<Longrightarrow> r \<in> set (flatten ts)"
proof (induction arbitrary: k ts rule: reached.induct)
  case (child r p)
  then obtain k' where k: "k = Suc k'" by (cases k) auto
  from child k have "Node r (the (buildTree k' items (Some (it_id r)))) \<in> set ts"
    by (auto simp: buildTree_Suc_iff simp del: buildTree.simps)
  then show ?case by (rule in_flattenI) (rule disjI1[OF refl])
next
  case (deeper c p r)
  then obtain k' where k: "k = Suc k'" by (cases k) auto
  from deeper.prems deeper.hyps(1,2) k
  have nn: "buildTree k' items (Some (it_id c)) \<noteq> None"
    and "Node c (the (buildTree k' items (Some (it_id c)))) \<in> set ts"
    by (auto simp: buildTree_Suc_iff simp del: buildTree.simps)
  then obtain sub where
    sub: "buildTree k' items (Some (it_id c)) = Some sub" and in_ts: "Node c sub \<in> set ts"
    by (cases "buildTree k' items (Some (it_id c))") auto
  from deeper.IH[OF sub] have "r \<in> set (flatten sub)" .
  then show ?case by (intro in_flattenI[OF in_ts] disjI2)
qed

lemma flatten_buildTree:
  "buildTree k items p = Some ts \<Longrightarrow> set (flatten ts) = Collect (reached items p)"
  using flatten_buildTree_sub flatten_buildTree_sup by blast

lemma reached_parent:
  "reached items p r \<Longrightarrow> r \<in> set items \<and> (it_parent_id r = p \<or> (\<exists>c \<in> set items. it_parent_id r = Some (it_id c)))"
  by (induction rule: reached.induct) auto

lemma reached_step:
  "reached items p c \<Longrightarrow> r \<in> set items \<Longrightarrow> it_parent_id r = Some (it_id c) \<Longrightarrow> reached items p r"
proof (induction rule: reached.induct)
  case (child c p)
  from child.prems have "reached items (Some (it_id c)) r" by (rule reached.child)
  then show ?case by (rule reached.deeper[OF child.hyps])
next
  case (deeper c' p c)
  from deeper.IH[OF deeper.prems] show ?case by (rule reached.deeper[OF deeper.hyps(1,2)])
qed

subsection \<open>The recursion ends on lists with distinct ids\<close>

lemma same_id:
  "distinct (map it_id items) \<Longrightarrow> c \<in> set items \<Longrightarrow> r \<in> set items \<Longrightarrow> it_id c = it_id r \<Longrightarrow> c = r"
  by (meson distinct_map inj_onD)

lemma rooted_in_items: "rooted items r \<Longrightarrow> r \<in> set items"
  by (induction rule: rooted.induct) auto

lemma rooted_edges_out:
  assumes d: "distinct (map it_id items)" and r: "r \<in> set items"
    and e: "(it_id r, z) \<in> rooted_edges items"
  shows "it_parent_id r = Some z"
proof -
  from e obtain c where c: "c \<in> set items" "it_id c = it_id r" "it_parent_id c = Some z"
    by (auto simp: rooted_edges_def)
  with same_id[OF d c(1) r] show ?thesis by simp
qed

lemma rooted_no_cycle:
  assumes d: "distinct (map it_id items)"
  shows "rooted items r \<Longrightarrow> (it_id r, it_id r) \<notin> (rooted_edges items)\<^sup>+"
proof (induction rule: rooted.induct)
  case (root r)
  show ?case
  proof
    assume "(it_id r, it_id r) \<in> (rooted_edges items)\<^sup>+"
    then obtain z where "(it_id r, z) \<in> rooted_edges items" by (meson tranclD)
    from rooted_edges_out[OF d root(1) this] root(2) show False by simp
  qed
next
  case (below c r)
  show ?case
  proof
    assume "(it_id r, it_id r) \<in> (rooted_edges items)\<^sup>+"
    then obtain z where z: "(it_id r, z) \<in> rooted_edges items"
      and ret: "(z, it_id r) \<in> (rooted_edges items)\<^sup>*" by (meson tranclD)
    from rooted_edges_out[OF d below(2) z] below(3) have "z = it_id c" by simp
    with z ret have "(it_id c, it_id c) \<in> (rooted_edges items)\<^sup>+" by auto
    with below.IH show False by simp
  qed
qed

lemma acyclic_rooted_edges:
  assumes d: "distinct (map it_id items)"
  shows "acyclic (rooted_edges items)"
proof (rule acyclicI, rule allI, rule notI)
  fix a assume cyc: "(a, a) \<in> (rooted_edges items)\<^sup>+"
  then obtain b where "(b, a) \<in> rooted_edges items" by (meson tranclE)
  then obtain r where "rooted items r" "a = it_id r" by (auto simp: rooted_edges_def)
  with rooted_no_cycle[OF d] cyc show False by auto
qed

lemma finite_rooted_edges: "finite (rooted_edges items)"
proof -
  have "rooted_edges items \<subseteq> (\<lambda>c. (it_id c, the (it_parent_id c))) ` set items"
    by (force simp: rooted_edges_def)
  then show ?thesis by (rule finite_subset) simp
qed

lemma wf_rooted_edges: "distinct (map it_id items) \<Longrightarrow> wf (rooted_edges items)"
  by (simp add: finite_acyclic_wf finite_rooted_edges acyclic_rooted_edges)

lemma fuel_for_all:
  "(\<forall>c \<in> set cs. \<exists>k. buildTree k items (Some (it_id c)) \<noteq> None) \<Longrightarrow>
   \<exists>K. \<forall>c \<in> set cs. buildTree K items (Some (it_id c)) \<noteq> None"
proof (induction cs)
  case Nil
  then show ?case by simp
next
  case (Cons c cs)
  then obtain K where K: "\<forall>c \<in> set cs. buildTree K items (Some (it_id c)) \<noteq> None" by auto
  from Cons.prems obtain k where k: "buildTree k items (Some (it_id c)) \<noteq> None" by auto
  have "buildTree (max k K) items (Some (it_id x)) \<noteq> None" if "x \<in> set (c # cs)" for x
  proof (cases "x = c")
    case True
    from k obtain t where "buildTree k items (Some (it_id c)) = Some t" by blast
    from buildTree_mono[OF this, of "max k K"] True show ?thesis by simp
  next
    case False
    with that K obtain t where "buildTree K items (Some (it_id x)) = Some t" by auto
    from buildTree_mono[OF this, of "max k K"] show ?thesis by simp
  qed
  then show ?case by blast
qed

lemma buildTree_step_terminates:
  assumes "\<forall>c \<in> set items. it_parent_id c = p \<longrightarrow> (\<exists>k. buildTree k items (Some (it_id c)) \<noteq> None)"
  shows "\<exists>k. buildTree k items p \<noteq> None"
proof -
  from assms have "\<forall>c \<in> set (filter (\<lambda>c. it_parent_id c = p) items).
      \<exists>k. buildTree k items (Some (it_id c)) \<noteq> None" by simp
  from fuel_for_all[OF this] obtain K where
    "\<forall>c \<in> set items. it_parent_id c = p \<longrightarrow> buildTree K items (Some (it_id c)) \<noteq> None" by auto
  then have "buildTree (Suc K) items p \<noteq> None"
    using buildTree_Suc_iff[of K items p] by blast
  then show ?thesis ..
qed

lemma buildTree_rooted_terminates:
  assumes d: "distinct (map it_id items)"
  shows "rooted items r \<Longrightarrow> \<exists>k. buildTree k items (Some (it_id r)) \<noteq> None"
proof -
  have "\<forall>r. rooted items r \<and> it_id r = x \<longrightarrow> (\<exists>k. buildTree k items (Some x) \<noteq> None)" for x
  proof (induction x rule: wf_induct_rule[OF wf_rooted_edges[OF d]])
    case (1 x)
    show ?case
    proof (intro allI impI)
      fix r assume r: "rooted items r \<and> it_id r = x"
      show "\<exists>k. buildTree k items (Some x) \<noteq> None"
      proof (rule buildTree_step_terminates, intro ballI impI)
        fix c assume c: "c \<in> set items" "it_parent_id c = Some x"
        with r have "(it_id c, x) \<in> rooted_edges items" by (auto simp: rooted_edges_def)
        moreover from r c have "rooted items c" by (auto intro: rooted.below)
        ultimately show "\<exists>k. buildTree k items (Some (it_id c)) \<noteq> None"
          using "1.IH" by blast
      qed
    qed
  qed
  then show "rooted items r \<Longrightarrow> \<exists>k. buildTree k items (Some (it_id r)) \<noteq> None" by blast
qed

lemma buildTree_terminates:
  assumes d: "distinct (map it_id items)"
  shows "\<exists>k. buildTree k items None \<noteq> None"
proof (rule buildTree_step_terminates, intro ballI impI)
  fix c assume "c \<in> set items" "it_parent_id c = None"
  then have "rooted items c" by (rule rooted.root)
  then show "\<exists>k. buildTree k items (Some (it_id c)) \<noteq> None"
    by (rule buildTree_rooted_terminates[OF d])
qed

lemma buildTree_returns:
  assumes d: "distinct (map it_id items)"
  shows "\<exists>k ts. \<forall>m \<ge> k. buildTree m items None = Some ts"
proof -
  from buildTree_terminates[OF d] obtain k ts where "buildTree k items None = Some ts" by blast
  then have "\<forall>m \<ge> k. buildTree m items None = Some ts" by (blast intro: buildTree_mono)
  then show ?thesis by blast
qed

subsection \<open>A forest is reached from its roots\<close>

lemma finite_item_edges: "finite (item_edges items)"
proof -
  have "item_edges items \<subseteq> (\<lambda>c. (it_id c, the (it_parent_id c))) ` set items"
    by (force simp: item_edges_def)
  then show ?thesis by (rule finite_subset) simp
qed

lemma forest_covered:
  assumes f: "is_forest items"
  shows "r \<in> set items \<Longrightarrow> reached items None r"
proof -
  from f have wf: "wf ((item_edges items)\<inverse>)"
    by (simp add: is_forest_def finite_acyclic_wf_converse finite_item_edges)
  have "\<forall>r \<in> set items. it_id r = x \<longrightarrow> reached items None r" for x
  proof (induction x rule: wf_induct_rule[OF wf])
    case (1 x)
    show ?case
    proof (intro ballI impI)
      fix r assume r: "r \<in> set items" "it_id r = x"
      show "reached items None r"
      proof (cases "it_parent_id r")
        case None
        with r show ?thesis by (simp add: reached.child)
      next
        case (Some p)
        with f r obtain c where c: "c \<in> set items" "it_id c = p"
          by (auto simp: is_forest_def)
        from r Some have "(p, x) \<in> (item_edges items)\<inverse>"
          by (auto simp: item_edges_def)
        with "1.IH" c have "reached items None c" by blast
        from reached_step[OF this r(1)] Some c show ?thesis by simp
      qed
    qed
  qed
  then show "r \<in> set items \<Longrightarrow> reached items None r" by blast
qed

lemma orphan_not_reached: "orphan items r \<Longrightarrow> \<not> reached items None r"
  by (auto simp: orphan_def dest!: reached_parent)

lemma reached_in_items: "reached items p r \<Longrightarrow> r \<in> set items"
  by (auto dest: reached_parent)

lemma decreasing_edges_acyclic:
  assumes "\<forall>r \<in> set items. \<forall>p. it_parent_id r = Some p \<longrightarrow> p < it_id r"
  shows "acyclic (item_edges items)"
proof -
  have sub: "item_edges items \<subseteq> {(a, b). b < a}"
    using assms by (auto simp: item_edges_def)
  have "trans {(a :: int, b). b < a}" by (auto simp: trans_def)
  then have "{(a :: int, b). b < a}\<^sup>+ = {(a, b). b < a}" by (rule trancl_id)
  then have "acyclic {(a :: int, b). b < a}" unfolding acyclic_def by simp
  from acyclic_subset[OF this sub] show ?thesis .
qed

subsection \<open>No record is reached twice\<close>

lemma single_valued_rooted_edges:
  assumes d: "distinct (map it_id items)"
  shows "single_valued (rooted_edges items)"
proof (rule single_valuedI)
  fix a b b' assume e: "(a, b) \<in> rooted_edges items" "(a, b') \<in> rooted_edges items"
  from e(1) obtain r where r: "r \<in> set items" "it_id r = a" by (auto simp: rooted_edges_def)
  from rooted_edges_out[OF d r(1), of b] rooted_edges_out[OF d r(1), of b'] e r(2)
  show "b = b'" by simp
qed

lemma reached_rooted:
  "reached items p r \<Longrightarrow> p = Some (it_id c) \<Longrightarrow> rooted items c \<Longrightarrow>
     rooted items r \<and> (it_id r, it_id c) \<in> (rooted_edges items)\<^sup>+"
proof (induction arbitrary: c rule: reached.induct)
  case (child r p)
  then have "rooted items r" by (auto intro: rooted.below)
  moreover from child have "(it_id r, it_id c) \<in> rooted_edges items"
    by (auto simp: rooted_edges_def)
  ultimately show ?case by blast
next
  case (deeper c' p r)
  from deeper.hyps(1,2) deeper.prems have c': "rooted items c'"
    and e: "(it_id c', it_id c) \<in> rooted_edges items"
    by (auto intro: rooted.below simp: rooted_edges_def)
  from deeper.IH[OF refl c'] e show ?case by (auto intro: trancl_into_trancl)
qed

lemma reached_root_rooted:
  "reached items p r \<Longrightarrow> p = None \<Longrightarrow> rooted items r"
proof (induction rule: reached.induct)
  case (child r p)
  then show ?case by (auto intro: rooted.root)
next
  case (deeper c p r)
  then have "rooted items c" by (auto intro: rooted.root)
  from reached_rooted[OF deeper.hyps(3) refl this] show ?case by simp
qed

lemma not_reached_self:
  assumes d: "distinct (map it_id items)" and c: "rooted items c"
  shows "\<not> reached items (Some (it_id c)) c"
proof
  assume "reached items (Some (it_id c)) c"
  from reached_rooted[OF this refl c] have "(it_id c, it_id c) \<in> (rooted_edges items)\<^sup>+" by simp
  with acyclic_rooted_edges[OF d] show False by (simp add: acyclic_def)
qed

text \<open>Two different children of one parent: neither is below the other.\<close>

lemma sibling_not_below:
  assumes d: "distinct (map it_id items)"
    and c: "c \<in> set items" "it_parent_id c = p" "rooted items c"
    and c': "c' \<in> set items" "it_parent_id c' = p" "rooted items c'"
  shows "(it_id c, it_id c') \<notin> (rooted_edges items)\<^sup>+"
proof
  assume "(it_id c, it_id c') \<in> (rooted_edges items)\<^sup>+"
  then obtain z where z: "(it_id c, z) \<in> rooted_edges items"
    and rest: "(z, it_id c') \<in> (rooted_edges items)\<^sup>*" by (meson tranclD)
  from rooted_edges_out[OF d c(1) z] c(2) have p: "p = Some z" by simp
  from z obtain r0 where r0: "rooted items r0" "z = it_id r0" by (auto simp: rooted_edges_def)
  from c' p r0 have "(it_id c', z) \<in> rooted_edges items" by (auto simp: rooted_edges_def)
  with rest have "(z, z) \<in> (rooted_edges items)\<^sup>+" by auto
  with acyclic_rooted_edges[OF d] show False by (simp add: acyclic_def)
qed

lemma subtrees_disjoint:
  assumes d: "distinct (map it_id items)"
    and c: "c \<in> set items" "it_parent_id c = p" "rooted items c"
    and c': "c' \<in> set items" "it_parent_id c' = p" "rooted items c'"
    and ne: "c \<noteq> c'"
    and r: "r = c \<or> reached items (Some (it_id c)) r"
    and r': "r = c' \<or> reached items (Some (it_id c')) r"
  shows False
proof -
  let ?R = "rooted_edges items"
  from ne same_id[OF d c(1) c'(1)] have ids: "it_id c \<noteq> it_id c'" by blast
  have a: "(it_id r, it_id c) \<in> ?R\<^sup>*"
  proof (cases "r = c")
    case False
    with r have "reached items (Some (it_id c)) r" by simp
    from reached_rooted[OF this refl c(3)] show ?thesis by (simp add: trancl_into_rtrancl)
  qed simp
  have b: "(it_id r, it_id c') \<in> ?R\<^sup>*"
  proof (cases "r = c'")
    case False
    with r' have "reached items (Some (it_id c')) r" by simp
    from reached_rooted[OF this refl c'(3)] show ?thesis by (simp add: trancl_into_rtrancl)
  qed simp
  from single_valued_confluent[OF single_valued_rooted_edges[OF d] a b]
  have "(it_id c, it_id c') \<in> ?R\<^sup>* \<or> (it_id c', it_id c) \<in> ?R\<^sup>*" .
  with ids have "(it_id c, it_id c') \<in> ?R\<^sup>+ \<or> (it_id c', it_id c) \<in> ?R\<^sup>+"
    by (auto dest: rtranclD)
  with sibling_not_below[OF d c c'] sibling_not_below[OF d c' c] show False by blast
qed

lemma distinct_concat_map:
  "distinct xs \<Longrightarrow> (\<forall>x \<in> set xs. distinct (f x)) \<Longrightarrow>
   (\<forall>x \<in> set xs. \<forall>y \<in> set xs. x \<noteq> y \<longrightarrow> set (f x) \<inter> set (f y) = {}) \<Longrightarrow>
   distinct (concat (map f xs))"
  by (induction xs) auto

lemma flatten_map_Node:
  "flatten (map (\<lambda>c. Node c (g c)) cs) = concat (map (\<lambda>c. c # flatten (g c)) cs)"
  by (simp add: flatten_def comp_def)

lemma flatten_distinct:
  assumes d: "distinct (map it_id items)"
  shows "buildTree k items p = Some ts \<Longrightarrow>
         p = None \<or> (\<exists>c. rooted items c \<and> p = Some (it_id c)) \<Longrightarrow>
         distinct (flatten ts)"
proof (induction k arbitrary: p ts)
  case 0
  then show ?case by simp
next
  case (Suc k)
  let ?cs = "filter (\<lambda>item. it_parent_id item = p) items"
  let ?g = "\<lambda>c. the (buildTree k items (Some (it_id c)))"
  from Suc.prems(1) have nn: "\<forall>c \<in> set items. it_parent_id c = p \<longrightarrow>
      buildTree k items (Some (it_id c)) \<noteq> None"
    and ts: "ts = map (\<lambda>c. Node c (?g c)) ?cs"
    by (simp_all add: buildTree_Suc_iff del: buildTree.simps)
  have sub: "buildTree k items (Some (it_id c)) = Some (?g c)" if "c \<in> set ?cs" for c
    using nn that by auto
  have rooted: "rooted items c" if "c \<in> set ?cs" for c
    using Suc.prems(2) that by (auto intro: rooted.root rooted.below)
  have below: "set (flatten (?g c)) = Collect (reached items (Some (it_id c)))" if "c \<in> set ?cs" for c
    using flatten_buildTree[OF sub[OF that]] .
  from d have "distinct items" by (simp add: distinct_map)
  then have 1: "distinct ?cs" by simp
  have 2: "\<forall>c \<in> set ?cs. distinct (c # flatten (?g c))"
  proof
    fix c assume c: "c \<in> set ?cs"
    from Suc.IH[OF sub[OF c]] rooted[OF c] have "distinct (flatten (?g c))" by blast
    moreover from not_reached_self[OF d rooted[OF c]] below[OF c] have "c \<notin> set (flatten (?g c))"
      by simp
    ultimately show "distinct (c # flatten (?g c))" by simp
  qed
  have 3: "\<forall>c \<in> set ?cs. \<forall>c' \<in> set ?cs. c \<noteq> c' \<longrightarrow>
             set (c # flatten (?g c)) \<inter> set (c' # flatten (?g c')) = {}"
  proof (intro ballI impI)
    fix c c' assume c: "c \<in> set ?cs" and c': "c' \<in> set ?cs" and ne: "c \<noteq> c'"
    show "set (c # flatten (?g c)) \<inter> set (c' # flatten (?g c')) = {}"
    proof (rule ccontr)
      assume "set (c # flatten (?g c)) \<inter> set (c' # flatten (?g c')) \<noteq> {}"
      then obtain r where "r \<in> set (c # flatten (?g c))" "r \<in> set (c' # flatten (?g c'))"
        by blast
      with below[OF c] below[OF c'] have "r = c \<or> reached items (Some (it_id c)) r"
        and "r = c' \<or> reached items (Some (it_id c')) r" by auto
      with subtrees_disjoint[OF d _ _ rooted[OF c] _ _ rooted[OF c'] ne, of p r] c c'
      show False by simp
    qed
  qed
  from distinct_concat_map[OF 1 2 3] show ?case
    unfolding ts flatten_map_Node .
qed

subsection \<open>The round trip\<close>

text \<open>
  Claim C7. For every list of folder records that is a forest (distinct ids, every
  declared parent the id of a record of the list, no cycle of parents),
  \<^verbatim>\<open>buildTree(items)\<close> returns, with any call depth beyond some bound, one forest,
  and flattening that forest gives back the records of the input, each of them
  once.
\<close>

theorem tree_round_trip:
  assumes "is_forest items"
  shows "\<exists>k forest. (\<forall>m \<ge> k. buildTree m items None = Some forest) \<and>
                     mset (flatten forest) = mset items \<and>
                     it_id ` set (flatten forest) = it_id ` set items"
proof -
  from assms have d: "distinct (map it_id items)" by (simp add: is_forest_def)
  from buildTree_returns[OF d] obtain k forest where
    k: "\<forall>m \<ge> k. buildTree m items None = Some forest" by blast
  then have b: "buildTree k items None = Some forest" by simp
  then have "set (flatten forest) = Collect (reached items None)" by (rule flatten_buildTree)
  also have "\<dots> = set items"
    using forest_covered[OF assms] reached_in_items by blast
  finally have s: "set (flatten forest) = set items" .
  from d have "distinct items" by (simp add: distinct_map)
  moreover from flatten_distinct[OF d b] have "distinct (flatten forest)" by simp
  ultimately have "mset (flatten forest) = mset items"
    using s by (simp add: set_eq_iff_mset_eq_distinct)
  with s k show ?thesis by auto
qed

text \<open>The example of the specification (root, child, grandchild) is such a forest.\<close>

theorem tree_round_trip_witness:
  "is_forest ex_items \<and>
   (\<exists>k forest. (\<forall>m \<ge> k. buildTree m ex_items None = Some forest) \<and>
                mset (flatten forest) = mset ex_items \<and>
                it_id ` set (flatten forest) = it_id ` set ex_items)"
proof -
  have "acyclic (item_edges ex_items)"
    by (rule decreasing_edges_acyclic) (simp add: ex_items_def)
  then have f: "is_forest ex_items"
    by (simp add: is_forest_def ex_items_def)
  with tree_round_trip[OF f] show ?thesis by simp
qed

subsection \<open>The order of the children and the route\<close>

lemma sorted_filter_key:
  fixes f :: "'a \<Rightarrow> 'k :: linorder" and g :: "'a \<Rightarrow> 'n :: linorder"
  shows "sorted (map (\<lambda>r. (f r, g r)) xs) \<Longrightarrow> sorted (map g (filter (\<lambda>r. f r = p) xs))"
  by (induction xs) (auto simp: less_eq_prod_def)

lemma buildTree_name_ordered:
  assumes s: "sorted (map (\<lambda>r. (it_parent_id r, it_name r)) items)"
  shows "buildTree k items p = Some ts \<Longrightarrow> forest_name_ordered ts"
proof (induction k arbitrary: p ts)
  case 0
  then show ?case by simp
next
  case (Suc k)
  from Suc.prems have nn: "\<forall>c \<in> set items. it_parent_id c = p \<longrightarrow> buildTree k items (Some (it_id c)) \<noteq> None"
    and ts: "ts = map (\<lambda>c. Node c (the (buildTree k items (Some (it_id c)))))
              (filter (\<lambda>item. it_parent_id item = p) items)"
    by (simp_all add: buildTree_Suc_iff del: buildTree.simps)
  have "map (\<lambda>t. it_name (item t)) ts = map it_name (filter (\<lambda>item. it_parent_id item = p) items)"
    by (simp add: ts comp_def)
  then have top: "sorted (map (\<lambda>t. it_name (item t)) ts)"
    using sorted_filter_key[OF s, of p] by simp
  have "name_ordered t" if "t \<in> set ts" for t
  proof -
    from that ts obtain c where c: "c \<in> set items" "it_parent_id c = p"
      and t: "t = Node c (the (buildTree k items (Some (it_id c))))" by auto
    from nn c obtain sub where sub: "buildTree k items (Some (it_id c)) = Some sub" by blast
    from Suc.IH[OF sub] t sub show ?thesis by (simp add: forest_name_ordered_def)
  qed
  with top show ?case by (simp add: forest_name_ordered_def)
qed

lemma select_folders_sorted:
  "sorted (map (\<lambda>r. (it_parent_id r, it_name r)) (select_folders d tabType))"
proof -
  have "map (\<lambda>r. (it_parent_id r, it_name r)) (select_folders d tabType) =
        map (\<lambda>r. (fo_parent_id r, fo_name r))
            (sort_key (\<lambda>r. (fo_parent_id r, fo_name r)) (filter (\<lambda>r. fo_tab_type r = tabType) (folders d)))"
    by (simp add: select_folders_def to_item_def comp_def)
  then show ?thesis by (simp only: sorted_sort_key)
qed

lemma select_folders_distinct:
  assumes "distinct (map fo_id (folders d))"
  shows "distinct (map it_id (select_folders d tabType))"
proof -
  have "map it_id (select_folders d tabType) =
        map fo_id (sort_key (\<lambda>r. (fo_parent_id r, fo_name r)) (filter (\<lambda>r. fo_tab_type r = tabType) (folders d)))"
    by (simp add: select_folders_def to_item_def comp_def)
  moreover have "distinct (map fo_id (filter (\<lambda>r. fo_tab_type r = tabType) (folders d)))"
    using assms by (rule distinct_map_filter)
  then have "distinct (map fo_id (sort_key (\<lambda>r. (fo_parent_id r, fo_name r)) (filter (\<lambda>r. fo_tab_type r = tabType) (folders d))))"
    by (simp add: distinct_map)
  ultimately show ?thesis by simp
qed

text \<open>For any list at all: what \<^verbatim>\<open>buildTree\<close> returns holds no orphan, and the
  empty list gives the empty forest.\<close>

lemma buildTree_drops_orphans:
  "buildTree k items None = Some forest \<Longrightarrow> orphan items r \<Longrightarrow> r \<notin> set (flatten forest)"
  using flatten_buildTree[of k items None forest] orphan_not_reached[of items r] by simp

lemma buildTree_empty: "buildTree (Suc k) [] p = Some []"
  by simp

text \<open>
  Claim C8. For every folder table (ids distinct, as the primary key has them) and
  every namespace, the folder list route answers with a forest in which no folder
  appears whose declared parent is not among the rows of that namespace, which is
  empty when the namespace has no row, and in which the roots and the children of
  every node are ordered by name.
\<close>

theorem tree_builder_orphans_empty_order:
  assumes pk: "distinct (map fo_id (folders d))" and ok: "flt SelectFolders = None"
  shows "\<exists>k forest.
           (\<forall>m \<ge> k. listFolders m flt d tabType = Some (Inr forest)) \<and>
           (\<forall>r \<in> set (select_folders d tabType).
               orphan (select_folders d tabType) r \<longrightarrow> r \<notin> set (flatten forest)) \<and>
           (select_folders d tabType = [] \<longrightarrow> forest = []) \<and>
           forest_name_ordered forest"
proof -
  let ?items = "select_folders d tabType"
  from buildTree_returns[OF select_folders_distinct[OF pk]] obtain k forest where
    k: "\<forall>m \<ge> k. buildTree m ?items None = Some forest" by blast
  then have bk: "buildTree k ?items None = Some forest" by simp
  from k ok have run: "\<forall>m \<ge> k. listFolders m flt d tabType = Some (Inr forest)"
    by (simp add: listFolders_def)
  from flatten_buildTree[OF bk] have "\<forall>r. orphan ?items r \<longrightarrow> r \<notin> set (flatten forest)"
    by (simp add: orphan_not_reached)
  moreover have "?items = [] \<longrightarrow> forest = []"
  proof
    assume e: "?items = []"
    from k have "buildTree (Suc k) ?items None = Some forest" by (simp del: buildTree.simps)
    with e show "forest = []" by simp
  qed
  moreover from bk have "forest_name_ordered forest"
    by (rule buildTree_name_ordered[OF select_folders_sorted])
  ultimately show ?thesis using run by blast
qed

lemma select_folders_example:
  "select_folders ex_db ''my'' =
     [\<lparr>it_id = 2, it_name = ''a'', it_parent_id = None, it_created_at = 1\<rparr>,
      \<lparr>it_id = 1, it_name = ''b'', it_parent_id = None, it_created_at = 0\<rparr>,
      \<lparr>it_id = 4, it_name = ''y'', it_parent_id = Some 1, it_created_at = 3\<rparr>,
      \<lparr>it_id = 3, it_name = ''z'', it_parent_id = Some 1, it_created_at = 2\<rparr>,
      \<lparr>it_id = 5, it_name = ''lost'', it_parent_id = Some 99, it_created_at = 4\<rparr>]"
  by (simp add: select_folders_def ex_db_def ex_folders_def to_item_def)

lemma listFolders_example:
  "listFolders 3 no_faults ex_db ''my'' = Some (Inr
     [Node \<lparr>it_id = 2, it_name = ''a'', it_parent_id = None, it_created_at = 1\<rparr> [],
      Node \<lparr>it_id = 1, it_name = ''b'', it_parent_id = None, it_created_at = 0\<rparr>
        [Node \<lparr>it_id = 4, it_name = ''y'', it_parent_id = Some 1, it_created_at = 3\<rparr> [],
         Node \<lparr>it_id = 3, it_name = ''z'', it_parent_id = Some 1, it_created_at = 2\<rparr> []]])"
  by (simp add: listFolders_def no_faults_def select_folders_example numeral_3_eq_3)

text \<open>On the example table the folder \<open>lost\<close> is an orphan of its namespace.\<close>

theorem tree_builder_orphans_empty_order_witness:
  "distinct (map fo_id (folders ex_db)) \<and> no_faults SelectFolders = None \<and>
   orphan (select_folders ex_db ''my'')
      \<lparr>it_id = 5, it_name = ''lost'', it_parent_id = Some 99, it_created_at = 4\<rparr> \<and>
   (\<exists>k forest.
      (\<forall>m \<ge> k. listFolders m no_faults ex_db ''my'' = Some (Inr forest)) \<and>
      (\<forall>r \<in> set (select_folders ex_db ''my'').
          orphan (select_folders ex_db ''my'') r \<longrightarrow> r \<notin> set (flatten forest)) \<and>
      (select_folders ex_db ''my'' = [] \<longrightarrow> forest = []) \<and>
      forest_name_ordered forest)"
proof -
  have pk: "distinct (map fo_id (folders ex_db))"
    by (simp add: ex_db_def ex_folders_def)
  have ok: "no_faults SelectFolders = None" by (simp add: no_faults_def)
  have "orphan (select_folders ex_db ''my'')
      \<lparr>it_id = 5, it_name = ''lost'', it_parent_id = Some 99, it_created_at = 4\<rparr>"
    by (simp add: orphan_def select_folders_example)
  with pk ok tree_builder_orphans_empty_order[of ex_db no_faults "''my''"] show ?thesis by blast
qed

section \<open>Deleting a folder\<close>

subsection \<open>The recursive query\<close>

lemma folder_tree_Suc:
  "folder_tree k tbl q = Some r \<Longrightarrow> folder_tree (Suc k) tbl q = Some r"
  by (induction k tbl q arbitrary: r rule: folder_tree.induct) auto

lemma folder_tree_mono:
  "folder_tree k tbl q = Some r \<Longrightarrow> k \<le> m \<Longrightarrow> folder_tree m tbl q = Some r"
  by (induction m) (auto simp: le_Suc_eq folder_tree_Suc simp del: folder_tree.simps)

lemma finite_folder_edges: "finite (folder_edges tbl)"
proof -
  have "folder_edges tbl \<subseteq> (\<lambda>c. (fo_id c, the (fo_parent_id c))) ` set tbl"
    by (force simp: folder_edges_def)
  then show ?thesis by (rule finite_subset) simp
qed

lemma reach_step:
  "{z. (z, x) \<in> (folder_edges tbl)\<^sup>*} =
     insert x (\<Union>c \<in> set (filter (\<lambda>f. fo_parent_id f = Some x) tbl).
                    {z. (z, fo_id c) \<in> (folder_edges tbl)\<^sup>*})"
proof (intro set_eqI iffI)
  fix z assume "z \<in> {z. (z, x) \<in> (folder_edges tbl)\<^sup>*}"
  then have "(z, x) \<in> (folder_edges tbl)\<^sup>*" by simp
  then show "z \<in> insert x (\<Union>c \<in> set (filter (\<lambda>f. fo_parent_id f = Some x) tbl).
                    {z. (z, fo_id c) \<in> (folder_edges tbl)\<^sup>*})"
  proof (cases rule: rtranclE)
    case base
    then show ?thesis by simp
  next
    case (step y)
    from step(2) obtain c where "c \<in> set tbl" "fo_id c = y" "fo_parent_id c = Some x"
      by (auto simp: folder_edges_def)
    with step(1) show ?thesis by auto
  qed
next
  fix z assume "z \<in> insert x (\<Union>c \<in> set (filter (\<lambda>f. fo_parent_id f = Some x) tbl).
                    {z. (z, fo_id c) \<in> (folder_edges tbl)\<^sup>*})"
  then consider "z = x" | c where "c \<in> set tbl" "fo_parent_id c = Some x"
      "(z, fo_id c) \<in> (folder_edges tbl)\<^sup>*" by auto
  then show "z \<in> {z. (z, x) \<in> (folder_edges tbl)\<^sup>*}"
  proof cases
    case 1
    then show ?thesis by simp
  next
    case 2
    from 2(1,2) have "(fo_id c, x) \<in> folder_edges tbl" by (auto simp: folder_edges_def)
    with 2(3) show ?thesis by (auto intro: rtrancl_into_rtrancl)
  qed
qed

lemma folder_tree_ids:
  "folder_tree k tbl q = Some r \<Longrightarrow>
   fo_id ` set r = (\<Union>y \<in> set q. {z. (z, fo_id y) \<in> (folder_edges tbl)\<^sup>*})"
proof (induction k tbl q arbitrary: r rule: folder_tree.induct)
  case (1 k tbl)
  then show ?case by simp
next
  case (2 tbl x queue)
  then show ?case by simp
next
  case (3 k tbl x queue)
  from "3.prems" obtain r' where
    r': "folder_tree k tbl (queue @ filter (\<lambda>f. fo_parent_id f = Some (fo_id x)) tbl) = Some r'"
    and r: "r = x # r'" by auto
  let ?A = "\<Union>y \<in> set queue. {z. (z, fo_id y) \<in> (folder_edges tbl)\<^sup>*}"
  let ?B = "\<Union>c \<in> set (filter (\<lambda>f. fo_parent_id f = Some (fo_id x)) tbl).
            {z. (z, fo_id c) \<in> (folder_edges tbl)\<^sup>*}"
  from "3.IH"[OF r'] have ih: "fo_id ` set r' = ?A \<union> ?B"
    by (simp add: Un_commute)
  have "fo_id ` set r = insert (fo_id x) (fo_id ` set r')" by (simp add: r)
  also have "\<dots> = insert (fo_id x) ?B \<union> ?A" unfolding ih by blast
  also have "insert (fo_id x) ?B = {z. (z, fo_id x) \<in> (folder_edges tbl)\<^sup>*}"
    by (rule reach_step[symmetric])
  finally show ?case by simp
qed

lemma folder_tree_terminates:
  assumes ac: "acyclic (folder_edges tbl)"
  shows "\<exists>k. folder_tree k tbl q \<noteq> None"
proof -
  from ac have "wf (folder_edges tbl)"
    by (simp add: finite_acyclic_wf finite_folder_edges)
  then have wf: "wf (mult1 (folder_edges tbl))" by (rule wf_mult1)
  have "\<forall>q :: folder_row list. mset (map fo_id q) = M \<longrightarrow> (\<exists>k. folder_tree k tbl q \<noteq> None)" for M
  proof (induction M rule: wf_induct_rule[OF wf])
    case (1 M)
    show ?case
    proof (intro allI impI)
      fix q :: "folder_row list" assume q: "mset (map fo_id q) = M"
      show "\<exists>k. folder_tree k tbl q \<noteq> None"
      proof (cases q)
        case Nil
        then show ?thesis by simp
      next
        case (Cons x queue)
        let ?ch = "filter (\<lambda>f. fo_parent_id f = Some (fo_id x)) tbl"
        have "\<forall>b. b \<in># mset (map fo_id ?ch) \<longrightarrow> (b, fo_id x) \<in> folder_edges tbl"
          by (auto simp: folder_edges_def)
        then have "(mset (map fo_id queue) + mset (map fo_id ?ch),
                    add_mset (fo_id x) (mset (map fo_id queue))) \<in> mult1 (folder_edges tbl)"
          unfolding mult1_def by blast
        with q Cons have "(mset (map fo_id (queue @ ?ch)), M) \<in> mult1 (folder_edges tbl)"
          by simp
        with "1.IH" obtain k where "folder_tree k tbl (queue @ ?ch) \<noteq> None" by blast
        with Cons have "folder_tree (Suc k) tbl q \<noteq> None" by simp
        then show ?thesis ..
      qed
    qed
  qed
  then show ?thesis by blast
qed

lemma folder_tree_returns:
  assumes "acyclic (folder_edges tbl)"
  shows "\<exists>k r. \<forall>m \<ge> k. folder_tree m tbl q = Some r"
proof -
  from folder_tree_terminates[OF assms] obtain k r where "folder_tree k tbl q = Some r" by blast
  then have "\<forall>m \<ge> k. folder_tree m tbl q = Some r" by (blast intro: folder_tree_mono)
  then show ?thesis by blast
qed

lemma folder_tree_subtree:
  assumes "folder_tree k tbl (filter (\<lambda>f. fo_id f = i) tbl) = Some ft"
  shows "set (map fo_id ft) = subtree tbl i"
proof -
  have "(\<Union>y \<in> set (filter (\<lambda>f. fo_id f = i) tbl). {z. (z, fo_id y) \<in> (folder_edges tbl)\<^sup>*}) =
        subtree tbl i"
    by (auto simp: subtree_def)
  with folder_tree_ids[OF assms] show ?thesis by simp
qed

subsection \<open>The route, statement by statement\<close>

lemma sql_in_owned:
  assumes "set ids = subtree tbl i"
  shows "sql_in (f_folder_id f) ids \<longleftrightarrow> owned tbl i f"
  using assms by (cases "f_folder_id f") (auto simp: owned_def)

lemma deleteSubfoldersQuery_same: "deleteSubfoldersQuery k d i i = Some d"
  by (simp add: deleteSubfoldersQuery_def)

lemma deleteFolder_unfold:
  assumes ft: "folder_tree k (folders (db w)) (filter (\<lambda>f. fo_id f = i) (folders (db w))) = Some ft"
  shows "deleteFolder k flt w i = Some
     (case flt GetSubItems of
        Some e \<Rightarrow> fail500 GetSubItems e (say (LogDeleteFolderRequest i) w)
      | None \<Rightarrow>
         (let bl = remove_blobs (fs w, console w @ [LogDeleteFolderRequest i,
                                                    LogItems (sub_items (db w) ft)])
                                (blob_paths (sub_items (db w) ft));
              w1 = w\<lparr>fs := fst bl, console := snd bl\<rparr>
          in case flt DeleteFiles of
               Some e \<Rightarrow> fail500 DeleteFiles e w1
             | None \<Rightarrow>
                (let w2 = w1\<lparr>db := (db w)\<lparr>files :=
                             filter (\<lambda>f. \<not> sql_in (f_folder_id f) (map fo_id ft)) (files (db w))\<rparr>\<rparr>
                 in case flt DeleteSubfolders of
                      Some e \<Rightarrow> fail500 DeleteSubfolders e w2
                    | None \<Rightarrow> deleteFolder_target flt w2 i)))"
  using ft
  by (simp add: deleteFolder_def deleteFolder_files_def deleteFolder_subfolders_def
      getSubItems_def deleteFilesQuery_def deleteSubfoldersQuery_same say_def Let_def
      split: option.splits prod.splits)

lemma deleteFolder_None:
  assumes "folder_tree k (folders (db w)) (filter (\<lambda>f. fo_id f = i) (folders (db w))) = None"
    and "flt GetSubItems = None"
  shows "deleteFolder k flt w i = None"
  using assms
  by (simp add: deleteFolder_def getSubItems_def say_def Let_def)

subsection \<open>The blobs\<close>

lemma remove_blob_step:
  assumes "remove_blob (f, out) p = (f', out')"
  shows "existing f' \<subseteq> existing f \<and> undeletable f' = undeletable f \<and>
         existing f \<inter> undeletable f \<subseteq> existing f' \<and>
         (\<exists>new. out' = out @ new \<and>
            (\<forall>ev \<in> set new. p \<in> existing f \<and> (ev = LogUnlinked p \<or> ev = LogUnlinkError p)) \<and>
            (p \<in> existing f \<and> p \<in> undeletable f \<longrightarrow> LogUnlinkError p \<in> set new))"
  using assms by (auto simp: unlinkSync_def split: if_splits)

lemma remove_blobs_log:
  "\<exists>new. snd (remove_blobs (f, out) ps) = out @ new \<and>
     (\<forall>ev \<in> set new. \<exists>p \<in> set ps. p \<in> existing f \<and> (ev = LogUnlinked p \<or> ev = LogUnlinkError p)) \<and>
     (\<forall>p \<in> set ps. p \<in> existing f \<and> p \<in> undeletable f \<longrightarrow> LogUnlinkError p \<in> set new)"
proof (induction ps arbitrary: f out)
  case Nil
  then show ?case by (simp add: remove_blobs_def)
next
  case (Cons q ps)
  obtain f1 out1 where st: "remove_blob (f, out) q = (f1, out1)" by (cases "remove_blob (f, out) q")
  from remove_blob_step[OF st] obtain new1 where
    ex: "existing f1 \<subseteq> existing f" and un: "undeletable f1 = undeletable f"
    and keep: "existing f \<inter> undeletable f \<subseteq> existing f1"
    and o1: "out1 = out @ new1"
    and n1: "\<forall>ev \<in> set new1. q \<in> existing f \<and> (ev = LogUnlinked q \<or> ev = LogUnlinkError q)"
    and e1: "q \<in> existing f \<and> q \<in> undeletable f \<longrightarrow> LogUnlinkError q \<in> set new1"
    by blast
  from Cons.IH[of f1 out1] obtain new2 where
    o2: "snd (remove_blobs (f1, out1) ps) = out1 @ new2"
    and n2: "\<forall>ev \<in> set new2. \<exists>p \<in> set ps. p \<in> existing f1 \<and> (ev = LogUnlinked p \<or> ev = LogUnlinkError p)"
    and e2: "\<forall>p \<in> set ps. p \<in> existing f1 \<and> p \<in> undeletable f1 \<longrightarrow> LogUnlinkError p \<in> set new2"
    by blast
  have run: "remove_blobs (f, out) (q # ps) = remove_blobs (f1, out1) ps"
    using st by (simp add: remove_blobs_def)
  have a: "snd (remove_blobs (f, out) (q # ps)) = out @ (new1 @ new2)"
    using run o1 o2 by simp
  have b: "\<forall>ev \<in> set (new1 @ new2). \<exists>p \<in> set (q # ps). p \<in> existing f \<and>
             (ev = LogUnlinked p \<or> ev = LogUnlinkError p)"
    using n1 n2 ex by auto
  have c: "\<forall>p \<in> set (q # ps). p \<in> existing f \<and> p \<in> undeletable f \<longrightarrow>
             LogUnlinkError p \<in> set (new1 @ new2)"
    using e1 e2 keep un by auto
  from a b c show ?case by blast
qed

lemma blob_paths_sub_items:
  "set (blob_paths (sub_items d ft)) =
     {f_file_path f | f. f \<in> set (files d) \<and> sql_in (f_folder_id f) (map fo_id ft) \<and>
                         f_file_path f \<noteq> []}"
  by (auto simp: blob_paths_def sub_items_def split: option.splits if_splits)

lemma deleteFolder_target_ok:
  "flt DeleteFolder = None \<Longrightarrow>
   deleteFolder_target flt w i =
     (Inr \<lparr>deletedRows = length (filter (\<lambda>f. fo_id f = i) (folders (db w))), folderId = i\<rparr>,
      w\<lparr>db := (db w)\<lparr>folders := filter (\<lambda>f. fo_id f \<noteq> i) (folders (db w))\<rparr>,
        console := console w @ [LogFolderDeleted i]\<rparr>)"
  by (simp add: deleteFolder_target_def deleteFolderQuery_def say_def)

lemma deleteFolder_target_fail:
  "flt DeleteFolder = Some e \<Longrightarrow>
   deleteFolder_target flt w i =
     (Inl (Status500 e), w\<lparr>console := console w @ [LogDbError DeleteFolder e]\<rparr>)"
  by (simp add: deleteFolder_target_def fail500_def say_def)

lemma count_id_distinct:
  "distinct (map fo_id tbl) \<Longrightarrow>
   length (filter (\<lambda>f. fo_id f = i) tbl) = (if i \<in> fo_id ` set tbl then 1 else 0)"
  by (induction tbl) (auto simp: image_iff)

subsection \<open>The example of the specification\<close>

lemma spec_example_run:
  "deleteFolder 5 no_faults spec_world 1 =
     Some (Inr \<lparr>deletedRows = 1, folderId = 1\<rparr>, spec_world_after)"
  by (simp add: deleteFolder_def deleteFolder_files_def deleteFolder_subfolders_def
      deleteFolder_target_def deleteFolderQuery_def deleteSubfoldersQuery_def
      deleteFilesQuery_def getSubItems_def sub_items_def blob_paths_def remove_blobs_def
      unlinkSync_def say_def no_faults_def spec_world_def spec_db_def spec_world_after_def
      spec_items_def folder1_def folder2_def folder3_def file_a_def file_b_def file_c_def
      eval_nat_numeral)

lemma folder_edgesI:
  "r \<in> set tbl \<Longrightarrow> fo_parent_id r = Some p \<Longrightarrow> (fo_id r, p) \<in> folder_edges tbl"
  by (auto simp: folder_edges_def)

lemma spec_example_subtree: "2 \<in> subtree (folders (db spec_world)) 1 \<and> 3 \<in> subtree (folders (db spec_world)) 1"
proof -
  let ?E = "folder_edges (folders (db spec_world))"
  have a: "(2, 1) \<in> ?E"
    using folder_edgesI[of folder2 "folders (db spec_world)" 1]
    by (simp add: spec_world_def spec_db_def folder2_def)
  have b: "(3, 2) \<in> ?E"
    using folder_edgesI[of folder3 "folders (db spec_world)" 2]
    by (simp add: spec_world_def spec_db_def folder3_def)
  from a have "(2, 1) \<in> ?E\<^sup>*" by blast
  moreover from b a have "(3, 1) \<in> ?E\<^sup>*" by (meson r_into_rtrancl rtrancl_trans)
  moreover have "1 \<in> fo_id ` set (folders (db spec_world))"
    by (simp add: spec_world_def spec_db_def folder1_def)
  ultimately show ?thesis by (simp add: subtree_def)
qed

subsection \<open>Folders that are not there, and tables without cycle\<close>

lemma decreasing_folder_edges_acyclic:
  assumes "\<forall>r \<in> set tbl. \<forall>p. fo_parent_id r = Some p \<longrightarrow> p < fo_id r"
  shows "acyclic (folder_edges tbl)"
proof -
  have sub: "folder_edges tbl \<subseteq> {(a, b). b < a}"
    using assms by (auto simp: folder_edges_def)
  have "trans {(a :: int, b). b < a}" by (auto simp: trans_def)
  then have "{(a :: int, b). b < a}\<^sup>+ = {(a, b). b < a}" by (rule trancl_id)
  then have "acyclic {(a :: int, b). b < a}" unfolding acyclic_def by simp
  from acyclic_subset[OF this sub] show ?thesis .
qed

lemma sql_in_Nil: "sql_in x [] = False"
  by (cases x) simp_all

lemma deleteFolder_absent:
  assumes "i \<notin> fo_id ` set (folders (db w))"
  shows "deleteFolder k flt w i = Some
     (case flt GetSubItems of
        Some e \<Rightarrow> fail500 GetSubItems e (say (LogDeleteFolderRequest i) w)
      | None \<Rightarrow>
         (let w1 = w\<lparr>console := console w @ [LogDeleteFolderRequest i, LogItems []]\<rparr>
          in case flt DeleteFiles of
               Some e \<Rightarrow> fail500 DeleteFiles e w1
             | None \<Rightarrow>
                (case flt DeleteSubfolders of
                   Some e \<Rightarrow> fail500 DeleteSubfolders e w1
                 | None \<Rightarrow> deleteFolder_target flt w1 i)))"
proof -
  from assms have e: "filter (\<lambda>f. fo_id f = i) (folders (db w)) = []"
    by (auto simp: filter_empty_conv)
  then have "folder_tree k (folders (db w)) (filter (\<lambda>f. fo_id f = i) (folders (db w))) = Some []"
    by simp
  from deleteFolder_unfold[OF this, of flt] show ?thesis
    by (simp add: sub_items_def blob_paths_def remove_blobs_def sql_in_Nil Let_def
        split: option.splits)
qed

lemma deleteFolder_returns_tree:
  assumes "acyclic (folder_edges (folders (db w)))"
  shows "\<exists>k ft. set (map fo_id ft) = subtree (folders (db w)) i \<and>
           (\<forall>m \<ge> k. folder_tree m (folders (db w))
                          (filter (\<lambda>f. fo_id f = i) (folders (db w))) = Some ft)"
proof -
  from folder_tree_returns[OF assms] obtain k ft where
    k: "\<forall>m \<ge> k. folder_tree m (folders (db w))
                      (filter (\<lambda>f. fo_id f = i) (folders (db w))) = Some ft" by blast
  then have "folder_tree k (folders (db w)) (filter (\<lambda>f. fo_id f = i) (folders (db w))) = Some ft"
    by simp
  from folder_tree_subtree[OF this] k show ?thesis by blast
qed

lemma spec_world_acyclic: "acyclic (folder_edges (folders (db spec_world)))"
  by (rule decreasing_folder_edges_acyclic)
     (simp add: spec_world_def spec_db_def folder1_def folder2_def folder3_def)

lemma stuck_world_acyclic: "acyclic (folder_edges (folders (db stuck_world)))"
  by (rule decreasing_folder_edges_acyclic) (simp add: stuck_world_def lone_folder_def)

lemma stuck_world_owned:
  "owned (folders (db stuck_world)) 7 stuck_file \<and> stuck_file \<in> set (files (db stuck_world))"
  by (simp add: owned_def subtree_def stuck_world_def lone_folder_def stuck_file_def)

text \<open>Without store error the route deletes the file rows the subtree owns and, of the
  folder rows, the one with the requested id and no other.\<close>

lemma cascade_tables_after:
  assumes ac: "acyclic (folder_edges (folders (db w)))"
    and ok: "flt GetSubItems = None" "flt DeleteFiles = None"
            "flt DeleteSubfolders = None" "flt DeleteFolder = None"
  shows "\<exists>k. \<forall>m \<ge> k. \<exists>r w'.
           deleteFolder m flt w i = Some (Inr r, w') \<and>
           folders (db w') = filter (\<lambda>f. fo_id f \<noteq> i) (folders (db w)) \<and>
           files (db w') = filter (\<lambda>f. \<not> owned (folders (db w)) i f) (files (db w))"
proof -
  from deleteFolder_returns_tree[OF ac, of i] obtain k ft where
    sub: "set (map fo_id ft) = subtree (folders (db w)) i"
    and k: "\<forall>m \<ge> k. folder_tree m (folders (db w))
                        (filter (\<lambda>f. fo_id f = i) (folders (db w))) = Some ft" by blast
  have own: "sql_in (f_folder_id f) (map fo_id ft) \<longleftrightarrow> owned (folders (db w)) i f" for f
    using sql_in_owned[OF sub] .
  have "\<exists>r w'. deleteFolder m flt w i = Some (Inr r, w') \<and>
           folders (db w') = filter (\<lambda>f. fo_id f \<noteq> i) (folders (db w)) \<and>
           files (db w') = filter (\<lambda>f. \<not> owned (folders (db w)) i f) (files (db w))"
    if "m \<ge> k" for m
  proof -
    from k that have ft: "folder_tree m (folders (db w))
                        (filter (\<lambda>f. fo_id f = i) (folders (db w))) = Some ft" by simp
    show ?thesis
      unfolding deleteFolder_unfold[OF ft]
      by (simp add: ok deleteFolder_target_ok own Let_def)
  qed
  then show ?thesis by blast
qed

subsection \<open>The claims on the route\<close>

text \<open>
  Claim C1, on the example of the specification. Asked to delete folder 1, the
  route answers with success; folders 2 and 3 belong to the subtree of folder 1
  and are still rows of the folder table afterwards. The base select of
  \<^verbatim>\<open>deleteSubfoldersQuery\<close>, \<^verbatim>\<open>WHERE id = ? AND id != ?\<close> bound to the same id twice,
  yields no row, so that statement deletes nothing. The files of the subtree are
  deleted; file 12, at the root of the namespace, stays.
\<close>

theorem cascade_leaves_descendants:
  "deleteFolder 5 no_faults spec_world 1 =
     Some (Inr \<lparr>deletedRows = 1, folderId = 1\<rparr>, spec_world_after) \<and>
   2 \<in> subtree (folders (db spec_world)) 1 \<and>
   3 \<in> subtree (folders (db spec_world)) 1 \<and>
   map fo_id (folders (db spec_world_after)) = [2, 3] \<and>
   map f_id (files (db spec_world_after)) = [12]"
  using spec_example_run spec_example_subtree
  by (simp add: spec_world_after_def folder2_def folder3_def file_c_def)

text \<open>
  Claim C2 as stated fails: when the statement that deletes the subfolders fails,
  the route answers 500 and the two file rows of the subtree, deleted by the
  statement before, stay deleted.
\<close>

theorem failed_step_keeps_earlier_deletes:
  "deleteFolder 5 (fault_at DeleteSubfolders ''SQLITE_IOERR'') spec_world 1 =
     Some (Inl (Status500 ''SQLITE_IOERR''), spec_world_failed) \<and>
   files (db spec_world) = [file_a, file_b, file_c] \<and>
   files (db spec_world_failed) = [file_c]"
  by (simp add: deleteFolder_def deleteFolder_files_def deleteFolder_subfolders_def
      deleteFilesQuery_def getSubItems_def sub_items_def blob_paths_def remove_blobs_def
      unlinkSync_def say_def fail500_def fault_at_def spec_world_def spec_db_def
      spec_world_failed_def
      spec_items_def folder1_def folder2_def folder3_def file_a_def file_b_def file_c_def
      eval_nat_numeral)

text \<open>
  Claim C2, amended. When one of the three deleting statements fails, the route
  answers 500. No statement is undone: if the failing statement is the one that
  deletes the file rows, both tables are as before the request; if it is a later
  one, the file rows of the subtree are deleted and stay so.
\<close>

theorem db_phase_failure_not_rolled_back:
  assumes ac: "acyclic (folder_edges (folders (db w)))"
    and g: "flt GetSubItems = None"
    and bad: "flt DeleteFiles \<noteq> None \<or> flt DeleteSubfolders \<noteq> None \<or> flt DeleteFolder \<noteq> None"
  shows "\<exists>k. \<forall>m \<ge> k. \<exists>e w'.
           deleteFolder m flt w i = Some (Inl (Status500 e), w') \<and>
           (flt DeleteFiles \<noteq> None \<longrightarrow> db w' = db w) \<and>
           (flt DeleteFiles = None \<longrightarrow>
              files (db w') = filter (\<lambda>f. \<not> owned (folders (db w)) i f) (files (db w)))"
proof -
  from deleteFolder_returns_tree[OF ac, of i] obtain k ft where
    sub: "set (map fo_id ft) = subtree (folders (db w)) i"
    and k: "\<forall>m \<ge> k. folder_tree m (folders (db w))
                        (filter (\<lambda>f. fo_id f = i) (folders (db w))) = Some ft" by blast
  have own: "(\<lambda>f. \<not> sql_in (f_folder_id f) (map fo_id ft)) = (\<lambda>f. \<not> owned (folders (db w)) i f)"
    using sql_in_owned[OF sub] by auto
  have "\<exists>e w'. deleteFolder m flt w i = Some (Inl (Status500 e), w') \<and>
           (flt DeleteFiles \<noteq> None \<longrightarrow> db w' = db w) \<and>
           (flt DeleteFiles = None \<longrightarrow>
              files (db w') = filter (\<lambda>f. \<not> owned (folders (db w)) i f) (files (db w)))"
    if "m \<ge> k" for m
  proof -
    from k that have ft: "folder_tree m (folders (db w))
                        (filter (\<lambda>f. fo_id f = i) (folders (db w))) = Some ft" by simp
    show ?thesis
    proof (cases "flt DeleteFiles")
      case (Some e)
      then show ?thesis
        unfolding deleteFolder_unfold[OF ft]
        by (simp add: g fail500_def say_def Let_def)
    next
      case None
      note df = this
      show ?thesis
      proof (cases "flt DeleteSubfolders")
        case (Some e)
        then show ?thesis
          unfolding deleteFolder_unfold[OF ft]
          by (simp add: g df own fail500_def say_def Let_def)
      next
        case None
        with df bad obtain e where "flt DeleteFolder = Some e" by auto
        with None show ?thesis
          unfolding deleteFolder_unfold[OF ft]
          by (simp add: g df own deleteFolder_target_fail Let_def)
      qed
    qed
  qed
  then show ?thesis by blast
qed

text \<open>
  On the example of the specification, once with the first and once with the
  second deleting statement failing.
\<close>

theorem db_phase_failure_not_rolled_back_witness:
  "acyclic (folder_edges (folders (db spec_world))) \<and>
   (\<exists>k. \<forall>m \<ge> k. \<exists>e w'.
       deleteFolder m (fault_at DeleteFiles ''SQLITE_BUSY'') spec_world 1
         = Some (Inl (Status500 e), w') \<and> db w' = db spec_world) \<and>
   (\<exists>k. \<forall>m \<ge> k. \<exists>e w'.
       deleteFolder m (fault_at DeleteSubfolders ''SQLITE_IOERR'') spec_world 1
         = Some (Inl (Status500 e), w') \<and>
       files (db w') = filter (\<lambda>f. \<not> owned (folders (db spec_world)) 1 f)
                              (files (db spec_world)))"
proof -
  note ac = spec_world_acyclic
  have a: "\<exists>k. \<forall>m \<ge> k. \<exists>e w'.
       deleteFolder m (fault_at DeleteFiles ''SQLITE_BUSY'') spec_world 1
         = Some (Inl (Status500 e), w') \<and> db w' = db spec_world"
    using db_phase_failure_not_rolled_back[OF ac, of "fault_at DeleteFiles ''SQLITE_BUSY''" 1]
    by (simp add: fault_at_def)
  have b: "\<exists>k. \<forall>m \<ge> k. \<exists>e w'.
       deleteFolder m (fault_at DeleteSubfolders ''SQLITE_IOERR'') spec_world 1
         = Some (Inl (Status500 e), w') \<and>
       files (db w') = filter (\<lambda>f. \<not> owned (folders (db spec_world)) 1 f)
                              (files (db spec_world))"
    using db_phase_failure_not_rolled_back[OF ac, of "fault_at DeleteSubfolders ''SQLITE_IOERR''" 1]
    by (simp add: fault_at_def)
  from ac a b show ?thesis by blast
qed

text \<open>
  Claim C5. For an id that no row of the folder table has, the route answers for
  every fuel, and leaves the tables and the file system as they were; when the
  store reports no error, the answer is success with \<^verbatim>\<open>deletedRows\<close> 0.
\<close>

theorem delete_absent_folder_noop:
  assumes "i \<notin> fo_id ` set (folders (db w))"
  shows "\<exists>r w'. deleteFolder k flt w i = Some (r, w') \<and> db w' = db w \<and> fs w' = fs w \<and>
           (flt GetSubItems = None \<and> flt DeleteFiles = None \<and>
            flt DeleteSubfolders = None \<and> flt DeleteFolder = None
              \<longrightarrow> r = Inr \<lparr>deletedRows = 0, folderId = i\<rparr>)"
proof -
  from assms have e: "filter (\<lambda>f. fo_id f = i) (folders (db w)) = []"
    and n: "filter (\<lambda>f. fo_id f \<noteq> i) (folders (db w)) = folders (db w)"
    by (auto simp: filter_empty_conv filter_id_conv)
  show ?thesis
    unfolding deleteFolder_absent[OF assms]
    by (auto simp: fail500_def say_def deleteFolder_target_def deleteFolderQuery_def e n Let_def
        split: option.splits)
qed

text \<open>
  Folder 7 is not in the example of the specification.
\<close>

theorem delete_absent_folder_noop_witness:
  "7 \<notin> fo_id ` set (folders (db spec_world)) \<and>
   no_faults GetSubItems = None \<and> no_faults DeleteFiles = None \<and>
   no_faults DeleteSubfolders = None \<and> no_faults DeleteFolder = None \<and>
   (\<exists>w'. deleteFolder 0 no_faults spec_world 7 = Some (Inr \<lparr>deletedRows = 0, folderId = 7\<rparr>, w') \<and>
         db w' = db spec_world \<and> fs w' = fs spec_world)"
proof -
  have a: "7 \<notin> fo_id ` set (folders (db spec_world))"
    by (simp add: spec_world_def spec_db_def folder1_def folder2_def folder3_def)
  have b: "no_faults GetSubItems = None \<and> no_faults DeleteFiles = None \<and>
           no_faults DeleteSubfolders = None \<and> no_faults DeleteFolder = None"
    by (simp add: no_faults_def)
  from delete_absent_folder_noop[OF a, of 0 no_faults] a b show ?thesis by auto
qed

text \<open>
  Claim C9 as stated fails in one point: for a file whose blob is not on disk the
  loop over the collected files prints nothing. The console holds the request,
  the list of the items to delete, which is printed before any blob is looked at,
  and the final message.
\<close>

theorem missing_blob_not_logged:
  "''uploads/3-gone.pdf'' \<notin> existing (fs lone_world) \<and>
   deleteFolder 3 no_faults lone_world 7 =
     Some (Inr \<lparr>deletedRows = 1, folderId = 7\<rparr>, lone_world_after)"
  by (simp add: deleteFolder_def deleteFolder_files_def deleteFolder_subfolders_def
      deleteFolder_target_def deleteFolderQuery_def deleteSubfoldersQuery_def
      deleteFilesQuery_def getSubItems_def sub_items_def blob_paths_def remove_blobs_def
      unlinkSync_def say_def no_faults_def lone_world_def lone_world_after_def
      lone_folder_def lone_file_def eval_nat_numeral)

text \<open>
  Claim C9, amended. When the store reports no error, the route answers with
  success whatever the file system holds: the file rows owned by the subtree and
  the row of the folder are deleted. A path that is not on disk gets no line on
  the console; a blob that is on disk and cannot be removed gets the error line,
  and the route goes on.
\<close>

theorem blob_trouble_does_not_stop_delete:
  assumes ac: "acyclic (folder_edges (folders (db w)))"
    and ok: "flt GetSubItems = None" "flt DeleteFiles = None"
            "flt DeleteSubfolders = None" "flt DeleteFolder = None"
  shows "\<exists>k. \<forall>m \<ge> k. \<exists>r w' new.
           deleteFolder m flt w i = Some (Inr r, w') \<and>
           files (db w') = filter (\<lambda>f. \<not> owned (folders (db w)) i f) (files (db w)) \<and>
           i \<notin> fo_id ` set (folders (db w')) \<and>
           console w' = console w @ new \<and>
           (\<forall>p. p \<notin> existing (fs w) \<longrightarrow> LogUnlinked p \<notin> set new \<and> LogUnlinkError p \<notin> set new) \<and>
           (\<forall>f \<in> set (files (db w)).
               owned (folders (db w)) i f \<and> f_file_path f \<noteq> [] \<and>
               f_file_path f \<in> existing (fs w) \<and> f_file_path f \<in> undeletable (fs w)
                 \<longrightarrow> LogUnlinkError (f_file_path f) \<in> set new)"
proof -
  from deleteFolder_returns_tree[OF ac, of i] obtain k ft where
    sub: "set (map fo_id ft) = subtree (folders (db w)) i"
    and k: "\<forall>m \<ge> k. folder_tree m (folders (db w))
                        (filter (\<lambda>f. fo_id f = i) (folders (db w))) = Some ft" by blast
  have own: "sql_in (f_folder_id f) (map fo_id ft) \<longleftrightarrow> owned (folders (db w)) i f" for f
    using sql_in_owned[OF sub] .
  let ?items = "sub_items (db w) ft"
  let ?start = "console w @ [LogDeleteFolderRequest i, LogItems ?items]"
  let ?bl = "remove_blobs (fs w, ?start) (blob_paths ?items)"
  from remove_blobs_log[of "fs w" ?start "blob_paths ?items"] obtain new where
    o: "snd ?bl = ?start @ new"
    and only: "\<forall>ev \<in> set new. \<exists>p \<in> set (blob_paths ?items). p \<in> existing (fs w) \<and>
                 (ev = LogUnlinked p \<or> ev = LogUnlinkError p)"
    and err: "\<forall>p \<in> set (blob_paths ?items). p \<in> existing (fs w) \<and> p \<in> undeletable (fs w)
                 \<longrightarrow> LogUnlinkError p \<in> set new"
    by blast
  let ?new = "[LogDeleteFolderRequest i, LogItems ?items] @ new @ [LogFolderDeleted i]"
  let ?w' = "w\<lparr>db := (db w)\<lparr>files := filter (\<lambda>f. \<not> owned (folders (db w)) i f) (files (db w)),
                            folders := filter (\<lambda>f. fo_id f \<noteq> i) (folders (db w))\<rparr>,
               fs := fst ?bl, console := console w @ ?new\<rparr>"
  let ?r = "\<lparr>deletedRows = length (filter (\<lambda>f. fo_id f = i) (folders (db w))), folderId = i\<rparr>"
  have run: "deleteFolder m flt w i = Some (Inr ?r, ?w')" if "m \<ge> k" for m
  proof -
    from k that have ft: "folder_tree m (folders (db w))
                        (filter (\<lambda>f. fo_id f = i) (folders (db w))) = Some ft" by simp
    show ?thesis
      unfolding deleteFolder_unfold[OF ft]
      by (simp add: ok deleteFolder_target_ok own o Let_def)
  qed
  have quiet: "\<forall>p. p \<notin> existing (fs w) \<longrightarrow> LogUnlinked p \<notin> set ?new \<and> LogUnlinkError p \<notin> set ?new"
    using only by auto
  have loud: "\<forall>f \<in> set (files (db w)).
               owned (folders (db w)) i f \<and> f_file_path f \<noteq> [] \<and>
               f_file_path f \<in> existing (fs w) \<and> f_file_path f \<in> undeletable (fs w)
                 \<longrightarrow> LogUnlinkError (f_file_path f) \<in> set ?new"
  proof (intro ballI impI)
    fix f assume f: "f \<in> set (files (db w))"
      and h: "owned (folders (db w)) i f \<and> f_file_path f \<noteq> [] \<and>
               f_file_path f \<in> existing (fs w) \<and> f_file_path f \<in> undeletable (fs w)"
    from f h have "f_file_path f \<in> set (blob_paths ?items)"
      unfolding blob_paths_sub_items using own by blast
    with err h show "LogUnlinkError (f_file_path f) \<in> set ?new" by simp
  qed
  have gone: "i \<notin> fo_id ` set (folders (db ?w'))" by auto
  have fl: "files (db ?w') = filter (\<lambda>f. \<not> owned (folders (db w)) i f) (files (db w))" by simp
  have con: "console ?w' = console w @ ?new" by simp
  from run quiet loud gone fl con show ?thesis by blast
qed

text \<open>
  A folder with one file whose blob is missing and one whose blob cannot be
  removed.
\<close>

theorem blob_trouble_does_not_stop_delete_witness:
  "acyclic (folder_edges (folders (db stuck_world))) \<and>
   no_faults GetSubItems = None \<and> no_faults DeleteFiles = None \<and>
   no_faults DeleteSubfolders = None \<and> no_faults DeleteFolder = None \<and>
   ''uploads/3-gone.pdf'' \<notin> existing (fs stuck_world) \<and>
   owned (folders (db stuck_world)) 7 stuck_file \<and>
   f_file_path stuck_file \<in> existing (fs stuck_world) \<and>
   f_file_path stuck_file \<in> undeletable (fs stuck_world) \<and>
   (\<exists>k. \<forall>m \<ge> k. \<exists>r w' new.
       deleteFolder m no_faults stuck_world 7 = Some (Inr r, w') \<and>
       files (db w') = filter (\<lambda>f. \<not> owned (folders (db stuck_world)) 7 f)
                              (files (db stuck_world)) \<and>
       7 \<notin> fo_id ` set (folders (db w')) \<and>
       console w' = console stuck_world @ new \<and>
       LogUnlinked ''uploads/3-gone.pdf'' \<notin> set new \<and>
       LogUnlinkError ''uploads/3-gone.pdf'' \<notin> set new \<and>
       LogUnlinkError ''uploads/4-stuck.pdf'' \<in> set new)"
proof -
  have nf: "no_faults GetSubItems = None" "no_faults DeleteFiles = None"
    "no_faults DeleteSubfolders = None" "no_faults DeleteFolder = None"
    by (simp_all add: no_faults_def)
  have gone: "''uploads/3-gone.pdf'' \<notin> existing (fs stuck_world)"
    by (simp add: stuck_world_def)
  have stuck: "f_file_path stuck_file = ''uploads/4-stuck.pdf''"
    "f_file_path stuck_file \<noteq> []"
    "f_file_path stuck_file \<in> existing (fs stuck_world)"
    "f_file_path stuck_file \<in> undeletable (fs stuck_world)"
    by (simp_all add: stuck_world_def stuck_file_def)
  from blob_trouble_does_not_stop_delete[OF stuck_world_acyclic nf, of 7] obtain k where
    k: "\<forall>m \<ge> k. \<exists>r w' new.
           deleteFolder m no_faults stuck_world 7 = Some (Inr r, w') \<and>
           files (db w') = filter (\<lambda>f. \<not> owned (folders (db stuck_world)) 7 f)
                                  (files (db stuck_world)) \<and>
           7 \<notin> fo_id ` set (folders (db w')) \<and>
           console w' = console stuck_world @ new \<and>
           (\<forall>p. p \<notin> existing (fs stuck_world) \<longrightarrow>
                LogUnlinked p \<notin> set new \<and> LogUnlinkError p \<notin> set new) \<and>
           (\<forall>f \<in> set (files (db stuck_world)).
               owned (folders (db stuck_world)) 7 f \<and> f_file_path f \<noteq> [] \<and>
               f_file_path f \<in> existing (fs stuck_world) \<and>
               f_file_path f \<in> undeletable (fs stuck_world)
                 \<longrightarrow> LogUnlinkError (f_file_path f) \<in> set new)"
    by blast
  have "\<exists>r w' new.
       deleteFolder m no_faults stuck_world 7 = Some (Inr r, w') \<and>
       files (db w') = filter (\<lambda>f. \<not> owned (folders (db stuck_world)) 7 f)
                              (files (db stuck_world)) \<and>
       7 \<notin> fo_id ` set (folders (db w')) \<and>
       console w' = console stuck_world @ new \<and>
       LogUnlinked ''uploads/3-gone.pdf'' \<notin> set new \<and>
       LogUnlinkError ''uploads/3-gone.pdf'' \<notin> set new \<and>
       LogUnlinkError ''uploads/4-stuck.pdf'' \<in> set new" if "m \<ge> k" for m
  proof -
    from k that obtain r w' new where
      a: "deleteFolder m no_faults stuck_world 7 = Some (Inr r, w')"
         "files (db w') = filter (\<lambda>f. \<not> owned (folders (db stuck_world)) 7 f)
                                  (files (db stuck_world))"
         "7 \<notin> fo_id ` set (folders (db w'))"
         "console w' = console stuck_world @ new"
      and q: "\<forall>p. p \<notin> existing (fs stuck_world) \<longrightarrow>
                LogUnlinked p \<notin> set new \<and> LogUnlinkError p \<notin> set new"
      and l: "\<forall>f \<in> set (files (db stuck_world)).
               owned (folders (db stuck_world)) 7 f \<and> f_file_path f \<noteq> [] \<and>
               f_file_path f \<in> existing (fs stuck_world) \<and>
               f_file_path f \<in> undeletable (fs stuck_world)
                 \<longrightarrow> LogUnlinkError (f_file_path f) \<in> set new"
      by blast
    from q gone have b: "LogUnlinked ''uploads/3-gone.pdf'' \<notin> set new"
      "LogUnlinkError ''uploads/3-gone.pdf'' \<notin> set new" by blast+
    from l stuck_world_owned stuck have "LogUnlinkError ''uploads/4-stuck.pdf'' \<in> set new"
      by metis
    with a b show ?thesis by blast
  qed
  with stuck_world_acyclic nf gone stuck_world_owned stuck(3,4) show ?thesis by blast
qed

text \<open>
  Claim C10. When the route answers with success, \<^verbatim>\<open>deletedRows\<close> is the number of
  rows of the folder table that carry the requested id, which the last statement
  deletes: 1 when the folder exists and 0 when it does not, the primary key making
  ids distinct. The body holds \<^verbatim>\<open>deletedRows\<close> and \<^verbatim>\<open>folderId\<close> (and a constant
  message) and no count of files.
\<close>

theorem deletedRows_counts_target_only:
  assumes pk: "distinct (map fo_id (folders (db w)))"
    and run: "deleteFolder k flt w i = Some (Inr r, w')"
  shows "r = \<lparr>deletedRows = length (filter (\<lambda>f. fo_id f = i) (folders (db w))), folderId = i\<rparr> \<and>
         deletedRows r = (if i \<in> fo_id ` set (folders (db w)) then 1 else 0)"
proof -
  have g: "flt GetSubItems = None"
  proof (cases "flt GetSubItems")
    case (Some e)
    with run show ?thesis by (simp add: deleteFolder_def fail500_def Let_def)
  qed simp
  obtain ft where ft: "folder_tree k (folders (db w)) (filter (\<lambda>f. fo_id f = i) (folders (db w))) = Some ft"
    using deleteFolder_None[of k w i flt] g run
    by (cases "folder_tree k (folders (db w)) (filter (\<lambda>f. fo_id f = i) (folders (db w)))") auto
  from run have "r = \<lparr>deletedRows = length (filter (\<lambda>f. fo_id f = i) (folders (db w))), folderId = i\<rparr>"
    unfolding deleteFolder_unfold[OF ft]
    by (auto simp: g fail500_def deleteFolder_target_def deleteFolderQuery_def Let_def
        split: option.splits)
  then show ?thesis by (simp add: count_id_distinct[OF pk])
qed

text \<open>
  On the example of the specification two file rows are deleted and
  \<^verbatim>\<open>deletedRows\<close> is 1.
\<close>

theorem deletedRows_counts_target_only_witness:
  "distinct (map fo_id (folders (db spec_world))) \<and>
   deleteFolder 5 no_faults spec_world 1 =
     Some (Inr \<lparr>deletedRows = 1, folderId = 1\<rparr>, spec_world_after) \<and>
   length (files (db spec_world)) - length (files (db spec_world_after)) = 2 \<and>
   deletedRows \<lparr>deletedRows = 1, folderId = 1\<rparr> =
     (if 1 \<in> fo_id ` set (folders (db spec_world)) then 1 else 0)"
proof -
  have pk: "distinct (map fo_id (folders (db spec_world)))"
    by (simp add: spec_world_def spec_db_def folder1_def folder2_def folder3_def)
  have two: "length (files (db spec_world)) - length (files (db spec_world_after)) = 2"
    by (simp add: spec_world_def spec_db_def spec_world_after_def)
  from deletedRows_counts_target_only[OF pk spec_example_run] pk two spec_example_run
  show ?thesis by simp
qed

section \<open>Deleting a file\<close>

lemma deleteFile_absent:
  assumes "i \<notin> f_id ` set (files (db w))"
  shows "deleteFile flt w i =
     (case flt SelectFile of
        None \<Rightarrow> (Inl Status404, w\<lparr>console := console w @ [LogDeleteFileRequest i]\<rparr>)
      | Some e \<Rightarrow> (Inl (Status500 e),
                   w\<lparr>console := console w @ [LogDeleteFileRequest i, LogDbError SelectFile e]\<rparr>))"
proof -
  from assms have "find (\<lambda>f. f_id f = i) (files (db w)) = None"
    by (auto simp: find_None_iff)
  then show ?thesis
    by (simp add: deleteFile_def say_def fail500_def Let_def split: option.splits)
qed

text \<open>
  Claim C4 as stated fails: no file has id 42, and the route answers 404.
\<close>

theorem delete_absent_file_is_404:
  "42 \<notin> f_id ` set (files (db spec_world)) \<and>
   deleteFile no_faults spec_world 42 =
     (Inl Status404, spec_world\<lparr>console := [LogDeleteFileRequest 42]\<rparr>)"
proof -
  have a: "42 \<notin> f_id ` set (files (db spec_world))"
    by (simp add: spec_world_def spec_db_def file_a_def file_b_def file_c_def)
  from deleteFile_absent[OF a, of no_faults] a show ?thesis
    by (simp add: no_faults_def spec_world_def)
qed

text \<open>
  Claim C4, amended. For an id that no row of the file table has, the route
  answers 404 (when the lookup itself meets no store error), and leaves the tables
  and the file system as they were.
\<close>

theorem delete_absent_file_fails_unchanged:
  assumes "i \<notin> f_id ` set (files (db w))" and "flt SelectFile = None"
  shows "\<exists>w'. deleteFile flt w i = (Inl Status404, w') \<and> db w' = db w \<and> fs w' = fs w"
  using assms by (simp add: deleteFile_absent)

text \<open>
  File 42 on the example of the specification.
\<close>

theorem delete_absent_file_fails_unchanged_witness:
  "42 \<notin> f_id ` set (files (db spec_world)) \<and> no_faults SelectFile = None \<and>
   (\<exists>w'. deleteFile no_faults spec_world 42 = (Inl Status404, w') \<and>
         db w' = db spec_world \<and> fs w' = fs spec_world)"
proof -
  have a: "42 \<notin> f_id ` set (files (db spec_world))"
    by (simp add: spec_world_def spec_db_def file_a_def file_b_def file_c_def)
  have b: "no_faults SelectFile = None" by (simp add: no_faults_def)
  from delete_absent_file_fails_unchanged[of 42 spec_world no_faults] a b show ?thesis by blast
qed

section \<open>Searching files\<close>

subsection \<open>Patterns without wild cards\<close>




lemma starts_ci_iff:
  "starts_ci s t \<longleftrightarrow> (\<exists>v w. s = v @ w \<and> map sql_lower v = map sql_lower t)"
proof (induction s t rule: starts_ci.induct)
  case (1 s)
  then show ?case by simp
next
  case (2 c t)
  then show ?case by simp
next
  case (3 a s c t)
  show ?case
  proof
    assume "starts_ci (a # s) (c # t)"
    with 3 obtain v w where "sql_lower a = sql_lower c" "s = v @ w"
      "map sql_lower v = map sql_lower t" by auto
    then have "a # s = (a # v) @ w \<and> map sql_lower (a # v) = map sql_lower (c # t)" by simp
    then show "\<exists>v w. a # s = v @ w \<and> map sql_lower v = map sql_lower (c # t)" by blast
  next
    assume "\<exists>v w. a # s = v @ w \<and> map sql_lower v = map sql_lower (c # t)"
    then obtain v w where vw: "a # s = v @ w" "map sql_lower v = map sql_lower (c # t)" by blast
    then obtain v' where v: "v = a # v'" by (cases v) auto
    with vw have "s = v' @ w" "sql_lower a = sql_lower c" "map sql_lower v' = map sql_lower t"
      by auto
    with 3 show "starts_ci (a # s) (c # t)" by auto
  qed
qed

lemma contains_ci_iff:
  "contains_ci s t \<longleftrightarrow> (\<exists>u v w. s = u @ v @ w \<and> map sql_lower v = map sql_lower t)"
proof (induction s)
  case Nil
  then show ?case by auto
next
  case (Cons a s)
  show ?case
  proof
    assume "contains_ci (a # s) t"
    then consider "starts_ci (a # s) t" | "contains_ci s t" by auto
    then show "\<exists>u v w. a # s = u @ v @ w \<and> map sql_lower v = map sql_lower t"
    proof cases
      case 1
      then obtain v w where "a # s = [] @ v @ w \<and> map sql_lower v = map sql_lower t"
        by (auto simp: starts_ci_iff)
      then show ?thesis by blast
    next
      case 2
      with Cons obtain u v w where "s = u @ v @ w" "map sql_lower v = map sql_lower t" by blast
      then have "a # s = (a # u) @ v @ w \<and> map sql_lower v = map sql_lower t" by simp
      then show ?thesis by blast
    qed
  next
    assume "\<exists>u v w. a # s = u @ v @ w \<and> map sql_lower v = map sql_lower t"
    then obtain u v w where h: "a # s = u @ v @ w" "map sql_lower v = map sql_lower t" by blast
    show "contains_ci (a # s) t"
    proof (cases u)
      case Nil
      with h have "starts_ci (a # s) t" by (auto simp: starts_ci_iff)
      then show ?thesis by simp
    next
      case (Cons b u')
      with h have "s = u' @ v @ w" by simp
      with h(2) Cons.IH have "contains_ci s t" by blast
      then show ?thesis by simp
    qed
  qed
qed

subsection \<open>The route\<close>







section \<open>Creating a folder\<close>




text \<open>No folder has id 77; a request to create a folder with parent 77 succeeds and
  creates the row.\<close>

lemma createFolder_missing_parent_example:
  "77 \<notin> fo_id ` set (folders spec_db) \<and>
   createFolder no_faults 9 spec_db (Some ''x'') (JNum 77) (Some ''my'') =
     (Inr \<lparr>cf_id = 4, cf_name = ''x'', cf_parent_id = Some 77, cf_tab_type = ''my''\<rparr>,
      spec_db\<lparr>folders := folders spec_db @
               [\<lparr>fo_id = 4, fo_name = ''x'', fo_parent_id = Some 77, fo_tab_type = ''my'',
                 fo_created_at = 9\<rparr>],
            folders_seq := 4\<rparr>)"
  by (simp add: createFolder_def processParentId_def insertFolder_def no_faults_def
      spec_db_def folder1_def folder2_def folder3_def Let_def)


end
